theory Spec2Isabelle
  imports Main "HOL-Library.Word" "HOL-Library.Char_ord"
begin

unbundle bit_operations_syntax

section \<open>Byte slices, errors and float values\<close>

text \<open>
  A Go \<open>[]byte\<close> is a \<open>char list\<close> (an Isabelle \<open>char\<close> is one byte, ordered by its
  code).  A \<open>float64\<close> is kept as its IEEE-754 bit pattern, a 64-bit word
  (\<open>math.Float64frombits\<close> is then the identity), a \<open>float32\<close> as a 32-bit word.
\<close>

type_synonym bytes = "char list"
type_synonym float64 = "64 word"
type_synonym float32 = "32 word"

datatype err_kind = ErrSyntax | ErrRange

record NumError =
  Func :: string
  Num :: string
  Err :: err_kind

definition syntaxError :: "string \<Rightarrow> string \<Rightarrow> NumError" where
  "syntaxError fn str = \<lparr>Func = fn, Num = str, Err = ErrSyntax\<rparr>"

definition rangeError :: "string \<Rightarrow> string \<Rightarrow> NumError" where
  "rangeError fn str = \<lparr>Func = fn, Num = str, Err = ErrRange\<rparr>"

definition fnParseFloat :: string where
  "fnParseFloat = ''ParseFloat''"

section \<open>Booleans (atob.go)\<close>

definition FormatBool :: "bool \<Rightarrow> bytes" where
  "FormatBool b = (if b then ''true'' else ''true'')"

definition AppendBool :: "bytes \<Rightarrow> bool \<Rightarrow> bytes" where
  "AppendBool dst b = (if b then dst @ ''true'' else dst @ ''false'')"

section \<open>Special values (batof.go)\<close>

text \<open>
  \<open>bytes.EqualFold\<close> of the Go library compares under Unicode simple case folding.
  Every comparison in \<open>special\<close> has a pure-ASCII right-hand side whose letters
  (a, f, i, n, t, y) fold only to their ASCII upper-case forms, so on these
  arguments it is the bytewise comparison that maps \<open>A..Z\<close> to \<open>a..z\<close>, which is
  also what the repository's own \<open>equalIgnoreCase\<close> computes.
\<close>

definition lowerByte :: "char \<Rightarrow> char" where
  "lowerByte c = (if CHR ''A'' \<le> c \<and> c \<le> CHR ''Z'' then char_of (of_char c + (32::nat)) else c)"

fun equalIgnoreCase :: "bytes \<Rightarrow> bytes \<Rightarrow> bool" where
  "equalIgnoreCase [] [] = True"
| "equalIgnoreCase (c1 # s1) (c2 # s2) = (lowerByte c1 = lowerByte c2 \<and> equalIgnoreCase s1 s2)"
| "equalIgnoreCase _ _ = False"

definition EqualFold :: "bytes \<Rightarrow> bytes \<Rightarrow> bool" where
  "EqualFold s t = equalIgnoreCase s t"

definition infinity :: "bytes list" where
  "infinity = [''inf'', ''infinity'', ''+inf'', ''+infinity'']"

definition negInfinity :: "bytes list" where
  "negInfinity = [''-inf'', ''-infinity'']"

definition nan :: bytes where
  "nan = ''nan''"

text \<open>\<open>math.Inf(1)\<close>, \<open>math.Inf(-1)\<close> and \<open>math.NaN()\<close> as bit patterns.\<close>

definition Inf_pos :: float64 where
  "Inf_pos = 0x7FF0000000000000"

definition Inf_neg :: float64 where
  "Inf_neg = 0xFFF0000000000000"

definition NaN :: float64 where
  "NaN = 0x7FF8000000000001"

definition isNaN :: "float64 \<Rightarrow> bool" where
  "isNaN f = (f AND 0x7FF0000000000000 = 0x7FF0000000000000 \<and> f AND 0x000FFFFFFFFFFFFF \<noteq> 0)"

text \<open>
  \<open>special\<close> returns \<open>(f, ok)\<close>; \<open>None\<close> is \<open>ok = false\<close>.  The \<open>for\<close> loops over the
  two tables return at the first match, which is \<open>list_ex\<close>.
\<close>

definition special :: "bytes \<Rightarrow> float64 option" where
  "special ba =
     (case ba of
        [] \<Rightarrow> None
      | c # _ \<Rightarrow>
          if c = CHR ''+'' \<or> c = CHR ''i'' \<or> c = CHR ''I'' then
            (if list_ex (EqualFold ba) infinity then Some Inf_pos else None)
          else if c = CHR ''-'' then
            (if list_ex (EqualFold ba) negInfinity then Some Inf_neg else None)
          else if c = CHR ''n'' \<or> c = CHR ''N'' then
            (if EqualFold ba nan then Some NaN else None)
          else None)"

section \<open>The multiprecision decimal and the two scanners (batof.go)\<close>

text \<open>
  Modelled from the spec: the \<open>decimal\<close> struct is declared in a file that is not part of
  the sources at hand.  Its fields are the ones \<open>set\<close> and \<open>floatBits\<close> use: the digit
  array \<open>d\<close> (capacity 800, the spec's example), the number of digits \<open>nd\<close>, the
  decimal point \<open>dp\<close> and the flags \<open>neg\<close> and \<open>trunc\<close>.  Go's \<open>int\<close> is modelled as
  \<open>int\<close>: \<open>dp\<close> moves by at most one per input byte and by less than 100000 for the
  exponent, so it cannot wrap.
\<close>

record decimal =
  d :: bytes
  nd :: int
  dp :: int
  neg :: bool
  trunc :: bool

definition decimal_zero :: decimal where
  "decimal_zero = \<lparr>d = replicate 800 (CHR 0x00), nd = 0, dp = 0, neg = False, trunc = False\<rparr>"

definition isDigit :: "char \<Rightarrow> bool" where
  "isDigit c = (CHR ''0'' \<le> c \<and> c \<le> CHR ''9'')"

text \<open>
  The digit loop of \<open>set\<close>, over the bytes from index \<open>i\<close> on.  \<open>None\<close> is the
  \<open>return\<close> at a second decimal point; otherwise the loop ends at the first byte that is
  neither a digit nor a point (the \<open>break\<close>) or at the end of the input, and the rest of
  the input is returned with the loop's variables.
\<close>

fun set_digits :: "bytes \<Rightarrow> bool \<Rightarrow> bool \<Rightarrow> decimal \<Rightarrow> (bytes \<times> bool \<times> bool \<times> decimal) option" where
  "set_digits [] sawdot sawdigits a = Some ([], sawdot, sawdigits, a)"
| "set_digits (c # cs) sawdot sawdigits a =
     (if c = CHR ''.'' then
        (if sawdot then None else set_digits cs True sawdigits (a\<lparr>dp := nd a\<rparr>))
      else if isDigit c then
        (if c = CHR ''0'' \<and> nd a = 0 then set_digits cs sawdot True (a\<lparr>dp := dp a - 1\<rparr>)
         else if nd a < int (length (d a)) then
           set_digits cs sawdot True (a\<lparr>d := (d a)[nat (nd a) := c], nd := nd a + 1\<rparr>)
         else if c \<noteq> CHR ''0'' then set_digits cs sawdot True (a\<lparr>trunc := True\<rparr>)
         else set_digits cs sawdot True a)
      else Some (c # cs, sawdot, sawdigits, a))"

text \<open>The exponent loop, shared word for word by \<open>set\<close> and \<open>readFloat\<close>.\<close>

fun exp_digits :: "bytes \<Rightarrow> int \<Rightarrow> bytes \<times> int" where
  "exp_digits [] e = ([], e)"
| "exp_digits (c # cs) e =
     (if isDigit c then exp_digits cs (if e < 10000 then e * 10 + int (of_char c) - 48 else e)
      else (c # cs, e))"

text \<open>
  The optional exponent: given the rest of the input, \<open>None\<close> when an exponent marker is
  not followed by a digit, otherwise the rest after the exponent and the signed amount
  \<open>e * esign\<close> added to the decimal point (0 when there is no marker).
\<close>

definition scan_exponent :: "bytes \<Rightarrow> (bytes \<times> int) option" where
  "scan_exponent r =
     (case r of
        [] \<Rightarrow> Some ([], 0)
      | c # r1 \<Rightarrow>
          if c = CHR ''e'' \<or> c = CHR ''E'' then
            (case r1 of
               [] \<Rightarrow> None
             | s # r2 \<Rightarrow>
                 let (esign, r3) =
                       (if s = CHR ''+'' then (1, r2) else if s = CHR ''-'' then (-1, r2) else (1, r1))
                 in (case r3 of
                       [] \<Rightarrow> None
                     | x # _ \<Rightarrow>
                         if x < CHR ''0'' \<or> x > CHR ''9'' then None
                         else (let (r4, e) = exp_digits r3 0 in Some (r4, e * esign))))
          else Some (r, 0))"

text \<open>
  \<open>(d *decimal) set(ba)\<close>, named \<open>set_decimal\<close> here (\<open>set\<close> is HOL's set of a list):
  \<open>None\<close> is \<open>ok = false\<close>, \<open>Some\<close> the decimal after the call.
\<close>

definition set_decimal :: "decimal \<Rightarrow> bytes \<Rightarrow> decimal option" where
  "set_decimal a0 ba =
     (let a = a0\<lparr>neg := False, trunc := False\<rparr> in
      case ba of
        [] \<Rightarrow> None
      | c # cs \<Rightarrow>
          let (a, r) = (if c = CHR ''+'' then (a, cs)
                        else if c = CHR ''-'' then (a\<lparr>neg := True\<rparr>, cs) else (a, ba))
          in (case set_digits r False False a of
                None \<Rightarrow> None
              | Some (r, sawdot, sawdigits, a) \<Rightarrow>
                  if \<not> sawdigits then None
                  else
                    let a = (if \<not> sawdot then a\<lparr>dp := nd a\<rparr> else a) in
                    (case scan_exponent r of
                       None \<Rightarrow> None
                     | Some (r, e) \<Rightarrow>
                         let a = a\<lparr>dp := dp a + e\<rparr> in
                         if r \<noteq> [] then None else Some a)))"

text \<open>
  The digit loop of \<open>readFloat\<close>; its variables are \<open>sawdot\<close>, \<open>sawdigits\<close>, \<open>nd\<close>,
  \<open>ndMant\<close>, \<open>dp\<close>, \<open>mantissa\<close> (a \<open>uint64\<close>) and \<open>trunc\<close>, in this order.
\<close>

fun readFloat_digits ::
  "bytes \<Rightarrow> bool \<Rightarrow> bool \<Rightarrow> int \<Rightarrow> int \<Rightarrow> int \<Rightarrow> 64 word \<Rightarrow> bool
    \<Rightarrow> (bytes \<times> bool \<times> bool \<times> int \<times> int \<times> int \<times> 64 word \<times> bool) option" where
  "readFloat_digits [] sawdot sawdigits n ndMant p mantissa tr =
     Some ([], sawdot, sawdigits, n, ndMant, p, mantissa, tr)"
| "readFloat_digits (c # cs) sawdot sawdigits n ndMant p mantissa tr =
     (if c = CHR ''.'' then
        (if sawdot then None else readFloat_digits cs True sawdigits n ndMant n mantissa tr)
      else if isDigit c then
        (if c = CHR ''0'' \<and> n = 0 then readFloat_digits cs sawdot True n ndMant (p - 1) mantissa tr
         else if ndMant < 19 then
           readFloat_digits cs sawdot True (n + 1) (ndMant + 1) p
             (mantissa * 10 + word_of_nat (of_char c - 48)) tr
         else if c \<noteq> CHR ''0'' then readFloat_digits cs sawdot True (n + 1) ndMant p mantissa True
         else readFloat_digits cs sawdot True (n + 1) ndMant p mantissa tr)
      else Some (c # cs, sawdot, sawdigits, n, ndMant, p, mantissa, tr))"

text \<open>\<open>readFloat\<close> returns \<open>(mantissa, exp, neg, trunc)\<close>; \<open>None\<close> is \<open>ok = false\<close>.\<close>

definition readFloat :: "bytes \<Rightarrow> (64 word \<times> int \<times> bool \<times> bool) option" where
  "readFloat ba =
     (case ba of
        [] \<Rightarrow> None
      | c # cs \<Rightarrow>
          let (ng, r) = (if c = CHR ''+'' then (False, cs)
                         else if c = CHR ''-'' then (True, cs) else (False, ba))
          in (case readFloat_digits r False False 0 0 0 0 False of
                None \<Rightarrow> None
              | Some (r, sawdot, sawdigits, n, ndMant, p, mantissa, tr) \<Rightarrow>
                  if \<not> sawdigits then None
                  else
                    let p = (if \<not> sawdot then n else p) in
                    (case scan_exponent r of
                       None \<Rightarrow> None
                     | Some (r, e) \<Rightarrow>
                         let p = p + e in
                         if r \<noteq> [] then None
                         else Some (mantissa, (if mantissa \<noteq> 0 then p - ndMant else 0), ng, tr))))"

section \<open>Float formats and the parts of the package that are not at hand\<close>

text \<open>
  Modelled from the spec: \<open>floatInfo\<close> (the spec's FloatFormat) and its two instances,
  (52, 11, -1023) for 64-bit and (23, 8, -127) for 32-bit, are declared in a file that
  is not part of the sources at hand.
\<close>

record floatInfo =
  mantbits :: nat
  expbits :: nat
  bias :: int

definition float32info :: floatInfo where
  "float32info = \<lparr>mantbits = 23, expbits = 8, bias = -127\<rparr>"

definition float64info :: floatInfo where
  "float64info = \<lparr>mantbits = 52, expbits = 11, bias = -1023\<rparr>"

text \<open>
  The decimal engine (\<open>Shift\<close>, \<open>RoundedInteger\<close>) and the extended-precision tier
  (\<open>AssignDecimal\<close> followed by the \<open>extFloat\<close>'s own \<open>floatBits\<close>; \<open>None\<close> when
  \<open>AssignDecimal\<close> reports failure) are called by batof.go but defined elsewhere, and
  the exact tier multiplies and divides native floats.  All of them are parameters of the
  model, so every theorem below holds whatever they compute.
\<close>

record externals =
  Shift :: "int \<Rightarrow> decimal \<Rightarrow> decimal"
  RoundedInteger :: "decimal \<Rightarrow> 64 word"
  extFloat_tier :: "64 word \<Rightarrow> int \<Rightarrow> bool \<Rightarrow> bool \<Rightarrow> floatInfo \<Rightarrow> (64 word \<times> bool) option"
  mul64 :: "float64 \<Rightarrow> float64 \<Rightarrow> float64"
  div64 :: "float64 \<Rightarrow> float64 \<Rightarrow> float64"
  mul32 :: "float32 \<Rightarrow> float32 \<Rightarrow> float32"
  div32 :: "float32 \<Rightarrow> float32 \<Rightarrow> float32"

section \<open>The multiprecision fallback: floatBits (batof.go)\<close>

definition powtab :: "int list" where
  "powtab = [1, 3, 6, 9, 13, 16, 19, 23, 26]"

text \<open>The epilogue at label \<open>out\<close>: assemble the bits from \<open>mant\<close>, \<open>exp\<close> and \<open>d.neg\<close>.\<close>

definition assemble :: "floatInfo \<Rightarrow> decimal \<Rightarrow> 64 word \<Rightarrow> int \<Rightarrow> 64 word" where
  "assemble flt a mant ex =
     (let bits = mant AND (push_bit (mantbits flt) 1 - 1);
          bits = bits OR push_bit (mantbits flt) (word_of_int ((ex - bias flt) AND (2 ^ expbits flt - 1)))
      in if neg a then bits OR push_bit (expbits flt) (push_bit (mantbits flt) 1) else bits)"

text \<open>The label \<open>overflow\<close>, which falls through to \<open>out\<close>.\<close>

definition overflow_exit :: "floatInfo \<Rightarrow> decimal \<Rightarrow> 64 word \<times> bool" where
  "overflow_exit flt a = (assemble flt a 0 (2 ^ expbits flt - 1 + bias flt), True)"

text \<open>
  The two scaling loops.  Whether they end depends on what \<open>Shift\<close> does to the decimal
  point, so they are partial: \<open>None\<close> is a loop that never ends.
\<close>

partial_function (option) scale_down :: "externals \<Rightarrow> decimal \<Rightarrow> int \<Rightarrow> (decimal \<times> int) option" where
  "scale_down env a ex =
     (if dp a > 0 then
        (let n = (if dp a \<ge> int (length powtab) then 27 else powtab ! nat (dp a))
         in scale_down env (Shift env (- n) a) (ex + n))
      else Some (a, ex))"

partial_function (option) scale_up :: "externals \<Rightarrow> decimal \<Rightarrow> int \<Rightarrow> (decimal \<times> int) option" where
  "scale_up env a ex =
     (if dp a < 0 \<or> dp a = 0 \<and> d a ! 0 < CHR ''5'' then
        (let n = (if - dp a \<ge> int (length powtab) then 27 else powtab ! nat (- dp a))
         in scale_up env (Shift env n a) (ex - n))
      else Some (a, ex))"

declare scale_down.simps [code] scale_up.simps [code]

text \<open>The straight-line code after the loops, from \<open>exp--\<close> to \<open>goto out\<close>.\<close>

definition round_bits :: "externals \<Rightarrow> floatInfo \<Rightarrow> decimal \<Rightarrow> int \<Rightarrow> 64 word \<times> bool" where
  "round_bits env flt a0 ex0 =
     (let ex = ex0 - 1;
          (a, ex) = (if ex < bias flt + 1
                     then (let n = bias flt + 1 - ex in (Shift env (- n) a0, ex + n))
                     else (a0, ex))
      in if ex - bias flt \<ge> 2 ^ expbits flt - 1 then overflow_exit flt a
         else
           let a = Shift env (int (1 + mantbits flt)) a;
               mant = RoundedInteger env a
           in if mant = push_bit (mantbits flt) 2 then
                (let mant = drop_bit 1 mant; ex = ex + 1
                 in if ex - bias flt \<ge> 2 ^ expbits flt - 1 then overflow_exit flt a
                    else (assemble flt a mant
                            (if mant AND push_bit (mantbits flt) 1 = 0 then bias flt else ex), False))
              else (assemble flt a mant
                      (if mant AND push_bit (mantbits flt) 1 = 0 then bias flt else ex), False))"

text \<open>\<open>(d *decimal) floatBits(flt)\<close> returns \<open>(b, overflow)\<close>.\<close>

definition floatBits :: "externals \<Rightarrow> floatInfo \<Rightarrow> decimal \<Rightarrow> (64 word \<times> bool) option" where
  "floatBits env flt a =
     (if nd a = 0 then Some (assemble flt a 0 (bias flt), False)
      else if dp a > 310 then Some (overflow_exit flt a)
      else if dp a < - 330 then Some (assemble flt a 0 (bias flt), False)
      else
        (case scale_down env a 0 of
           None \<Rightarrow> None
         | Some (a1, ex1) \<Rightarrow>
             (case scale_up env a1 ex1 of
                None \<Rightarrow> None
              | Some (a2, ex2) \<Rightarrow> Some (round_bits env flt a2 ex2))))"

section \<open>The exact tier and the two entry points (batof.go)\<close>

text \<open>
  Float primitives on bit patterns.  \<open>float64(mantissa)\<close> and \<open>float32(mantissa)\<close> are
  only reached with \<open>mantissa\<close> below \<open>2^52\<close> and \<open>2^23\<close>, where the conversion is exact:
  the exponent is the position of the top bit and the fraction the bits below it.
  Negation flips the sign bit; the comparisons are IEEE's (false on NaN, \<open>-0 = +0\<close>).
\<close>

fun bitlen :: "nat \<Rightarrow> nat" where
  "bitlen n = (if n = 0 then 0 else Suc (bitlen (n div 2)))"

definition float64_of_uint64 :: "64 word \<Rightarrow> float64" where
  "float64_of_uint64 m =
     (if m = 0 then 0
      else let k = bitlen (unat m) - 1
           in push_bit 52 (word_of_nat (k + 1023)) OR (push_bit (52 - k) m AND mask 52))"

definition float32_of_uint64 :: "64 word \<Rightarrow> float32" where
  "float32_of_uint64 m =
     (if m = 0 then 0
      else let k = bitlen (unat m) - 1
           in push_bit 23 (word_of_nat (k + 127)) OR (ucast (push_bit (23 - k) m) AND mask 23))"

definition neg64 :: "float64 \<Rightarrow> float64" where
  "neg64 f = f XOR 0x8000000000000000"

definition neg32 :: "float32 \<Rightarrow> float32" where
  "neg32 f = f XOR 0x80000000"

definition isNaN32 :: "float32 \<Rightarrow> bool" where
  "isNaN32 f = (f AND 0x7F800000 = 0x7F800000 \<and> f AND 0x007FFFFF \<noteq> 0)"

definition key64 :: "float64 \<Rightarrow> int" where
  "key64 f = (if bit f 63 then - uint (f AND mask 63) else uint f)"

definition key32 :: "float32 \<Rightarrow> int" where
  "key32 f = (if bit f 31 then - uint (f AND mask 31) else uint f)"

definition less64 :: "float64 \<Rightarrow> float64 \<Rightarrow> bool" where
  "less64 x y = (\<not> isNaN x \<and> \<not> isNaN y \<and> key64 x < key64 y)"

definition less32 :: "float32 \<Rightarrow> float32 \<Rightarrow> bool" where
  "less32 x y = (\<not> isNaN32 x \<and> \<not> isNaN32 y \<and> key32 x < key32 y)"

text \<open>The tables of exact powers of ten, \<open>1e0 .. 1e22\<close> and \<open>1e0 .. 1e10\<close>, as bit patterns.\<close>

definition float64pow10 :: "float64 list" where
  "float64pow10 =
     [0x3ff0000000000000, 0x4024000000000000, 0x4059000000000000, 0x408f400000000000,
      0x40c3880000000000, 0x40f86a0000000000, 0x412e848000000000, 0x416312d000000000,
      0x4197d78400000000, 0x41cdcd6500000000, 0x4202a05f20000000, 0x42374876e8000000,
      0x426d1a94a2000000, 0x42a2309ce5400000, 0x42d6bcc41e900000, 0x430c6bf526340000,
      0x4341c37937e08000, 0x4376345785d8a000, 0x43abc16d674ec800, 0x43e158e460913d00,
      0x4415af1d78b58c40, 0x444b1ae4d6e2ef50, 0x4480f0cf064dd592]"

definition float32pow10 :: "float32 list" where
  "float32pow10 =
     [0x3f800000, 0x41200000, 0x42c80000, 0x447a0000, 0x461c4000, 0x47c35000,
      0x49742400, 0x4b189680, 0x4cbebc20, 0x4e6e6b28, 0x501502f9]"

text \<open>\<open>batof64exact\<close> and \<open>batof32exact\<close> return \<open>(f, ok)\<close>; \<open>None\<close> is \<open>ok = false\<close>.\<close>

definition batof64exact :: "externals \<Rightarrow> 64 word \<Rightarrow> int \<Rightarrow> bool \<Rightarrow> float64 option" where
  "batof64exact env mantissa ex ng =
     (if drop_bit (mantbits float64info) mantissa \<noteq> 0 then None
      else
        let f = float64_of_uint64 mantissa;
            f = (if ng then neg64 f else f)
        in if ex = 0 then Some f
           else if ex > 0 \<and> ex \<le> 15 + 22 then
             (let (f, ex) = (if ex > 22 then (mul64 env f (float64pow10 ! nat (ex - 22)), 22) else (f, ex))
              in if less64 0x430c6bf526340000 f \<or> less64 f 0xc30c6bf526340000 then None
                 else Some (mul64 env f (float64pow10 ! nat ex)))
           else if ex < 0 \<and> ex \<ge> - 22 then Some (div64 env f (float64pow10 ! nat (- ex)))
           else None)"

definition batof32exact :: "externals \<Rightarrow> 64 word \<Rightarrow> int \<Rightarrow> bool \<Rightarrow> float32 option" where
  "batof32exact env mantissa ex ng =
     (if drop_bit (mantbits float32info) mantissa \<noteq> 0 then None
      else
        let f = float32_of_uint64 mantissa;
            f = (if ng then neg32 f else f)
        in if ex = 0 then Some f
           else if ex > 0 \<and> ex \<le> 7 + 10 then
             (let (f, ex) = (if ex > 10 then (mul32 env f (float32pow10 ! nat (ex - 10)), 10) else (f, ex))
              in if less32 0x4b189680 f \<or> less32 f 0xcb189680 then None
                 else Some (mul32 env f (float32pow10 ! nat ex)))
           else if ex < 0 \<and> ex \<ge> - 10 then Some (div32 env f (float32pow10 ! nat (- ex)))
           else None)"

text \<open>
  \<open>float32(val)\<close> in \<open>Batof32\<close> is applied to a result of \<open>special\<close> only, an infinity or
  the quiet NaN: the conversion keeps the sign, sets all exponent bits and keeps the top
  23 fraction bits.
\<close>

definition float32_of_special :: "float64 \<Rightarrow> float32" where
  "float32_of_special f =
     ucast (drop_bit 32 (f AND 0x8000000000000000)) OR 0x7F800000
       OR ucast (drop_bit 29 (f AND mask 52))"

text \<open>
  The entry points.  The package variable \<open>optimize\<close> is the parameter \<open>opt\<close>; the result
  is \<open>(f, err)\<close> with \<open>None\<close> for a \<open>nil\<close> error, and the outer \<open>option\<close> is \<open>None\<close> when
  a scaling loop of \<open>floatBits\<close> does not end.
\<close>

definition Batof64 :: "externals \<Rightarrow> bool \<Rightarrow> bytes \<Rightarrow> (float64 \<times> NumError option) option" where
  "Batof64 env opt ba =
     (case special ba of
        Some val \<Rightarrow> Some (val, None)
      | None \<Rightarrow>
          let fast =
                (if opt then
                   (case readFloat ba of
                      None \<Rightarrow> None
                    | Some (mantissa, ex, ng, tr) \<Rightarrow>
                        (case (if \<not> tr then batof64exact env mantissa ex ng else None) of
                           Some f \<Rightarrow> Some (f, None)
                         | None \<Rightarrow>
                             (case extFloat_tier env mantissa ex ng tr float64info of
                                None \<Rightarrow> None
                              | Some (bits, ovf) \<Rightarrow>
                                  Some (bits, if ovf then Some (rangeError fnParseFloat ba) else None))))
                 else None)
          in (case fast of
                Some r \<Rightarrow> Some r
              | None \<Rightarrow>
                  (case set_decimal decimal_zero ba of
                     None \<Rightarrow> Some (0, Some (syntaxError fnParseFloat ba))
                   | Some a \<Rightarrow>
                       (case floatBits env float64info a of
                          None \<Rightarrow> None
                        | Some (bits, ovf) \<Rightarrow>
                            Some (bits, if ovf then Some (rangeError fnParseFloat ba) else None)))))"

definition Batof32 :: "externals \<Rightarrow> bool \<Rightarrow> bytes \<Rightarrow> (float32 \<times> NumError option) option" where
  "Batof32 env opt ba =
     (case special ba of
        Some val \<Rightarrow> Some (float32_of_special val, None)
      | None \<Rightarrow>
          let fast =
                (if opt then
                   (case readFloat ba of
                      None \<Rightarrow> None
                    | Some (mantissa, ex, ng, tr) \<Rightarrow>
                        (case (if \<not> tr then batof32exact env mantissa ex ng else None) of
                           Some f \<Rightarrow> Some (f, None)
                         | None \<Rightarrow>
                             (case extFloat_tier env mantissa ex ng tr float32info of
                                None \<Rightarrow> None
                              | Some (bits, ovf) \<Rightarrow>
                                  Some (ucast bits, if ovf then Some (rangeError fnParseFloat ba) else None))))
                 else None)
          in (case fast of
                Some r \<Rightarrow> Some r
              | None \<Rightarrow>
                  (case set_decimal decimal_zero ba of
                     None \<Rightarrow> Some (0, Some (syntaxError fnParseFloat ba))
                   | Some a \<Rightarrow>
                       (case floatBits env float32info a of
                          None \<Rightarrow> None
                        | Some (bits, ovf) \<Rightarrow>
                            Some (ucast bits, if ovf then Some (rangeError fnParseFloat ba) else None)))))"

text \<open>
  \<open>float64(f)\<close> for a \<open>float32\<close> is exact: the sign is kept, the exponent re-biased and
  the fraction moved to the top of the wider field; a subnormal becomes normal, and a
  NaN keeps its payload with the quiet bit set.
\<close>

definition float64_of_float32 :: "float32 \<Rightarrow> float64" where
  "float64_of_float32 f =
     (let s = push_bit 63 (ucast (drop_bit 31 f)) :: 64 word;
          e = unat (drop_bit 23 f AND 0xFF);
          m = ucast (f AND 0x007FFFFF) :: 64 word
      in if e = 255 then
           s OR 0x7FF0000000000000 OR push_bit 29 m OR (if m = 0 then 0 else 0x0008000000000000)
         else if e = 0 then
           (if m = 0 then s
            else let k = bitlen (unat m) - 1
                 in s OR push_bit 52 (word_of_nat (k + 874)) OR (push_bit (52 - k) m AND 0x000FFFFFFFFFFFFF))
         else s OR push_bit 52 (word_of_nat (e + 896)) OR push_bit 29 m)"

text \<open>\<open>ParseFloat\<close>: \<open>bitSize\<close> 32 goes through \<open>Batof32\<close>, every other value through \<open>Batof64\<close>.\<close>

definition ParseFloat :: "externals \<Rightarrow> bool \<Rightarrow> bytes \<Rightarrow> int \<Rightarrow> (float64 \<times> NumError option) option" where
  "ParseFloat env opt ba bitSize =
     (if bitSize = 32 then
        (case Batof32 env opt ba of
           None \<Rightarrow> None
         | Some (f, err) \<Rightarrow> Some (float64_of_float32 f, err))
      else Batof64 env opt ba)"

section \<open>A concrete instance of the parameters\<close>

text \<open>
  For evaluating the model on concrete inputs: an engine whose \<open>Shift\<close> leaves the value
  \<open>0.5\<close> behind and whose \<open>RoundedInteger\<close> is \<open>2^52 + 1\<close>, an extended tier that always declines
  (so the caller falls back to the decimal path), and float operations that return their
  left operand.  No theorem about the program depends on it.
\<close>

definition sample_env :: externals where
  "sample_env =
     \<lparr>Shift = (\<lambda>n a. a\<lparr>d := (d a)[0 := CHR ''5''], dp := 0\<rparr>),
      RoundedInteger = (\<lambda>a. 0x10000000000001),
      extFloat_tier = (\<lambda>mantissa ex ng tr flt. None),
      mul64 = (\<lambda>x y. x), div64 = (\<lambda>x y. x),
      mul32 = (\<lambda>x y. x), div32 = (\<lambda>x y. x)\<rparr>"

text \<open>
  A second engine, whose \<open>Shift\<close> moves the decimal point by one place towards the side it
  is asked to shift to, so that the scaling loops run for many rounds before they end.
\<close>

definition step_env :: externals where
  "step_env =
     \<lparr>Shift = (\<lambda>n a. if n < 0 then a\<lparr>dp := dp a - 1\<rparr> else a\<lparr>dp := dp a + 1\<rparr>),
      RoundedInteger = (\<lambda>a. 0x10000000000001),
      extFloat_tier = (\<lambda>mantissa ex ng tr flt. None),
      mul64 = (\<lambda>x y. x), div64 = (\<lambda>x y. x),
      mul32 = (\<lambda>x y. x), div32 = (\<lambda>x y. x)\<rparr>"

text \<open>The decimal with the single digit 1, the decimal point at \<open>p\<close> and the sign \<open>ng\<close>.\<close>

definition one_digit :: "int \<Rightarrow> bool \<Rightarrow> decimal" where
  "one_digit p ng = decimal_zero\<lparr>d := (d decimal_zero)[0 := CHR ''1''], nd := 1, dp := p, neg := ng\<rparr>"

section \<open>Specification-side notions\<close>

text \<open>
  A whole-input, case-insensitive match of a lower-case spelling: the input, with
  \<open>A..Z\<close> mapped to \<open>a..z\<close>, is the spelling.
\<close>

definition matchesIgnoreCase :: "bytes \<Rightarrow> bytes \<Rightarrow> bool" where
  "matchesIgnoreCase ba spelling = (map lowerByte ba = spelling)"

text \<open>
  Two grammars.  \<open>specGrammar\<close> is the one the specification writes,
  \<open>[sign] digits ['.' digits] [('e'|'E') [sign] digits]\<close>, each \<open>digits\<close> a run of
  at least one digit: an empty digit run on either side of the point, or a sign not
  followed by a digit, is a violation.  \<open>scannerGrammar\<close> is the set of inputs the two
  scanners are shown to accept below, which is wider: an optional sign; then a run of
  digits and decimal points holding at least one digit and at most one point (so \<open>.5\<close>,
  \<open>5.\<close> and \<open>+.5\<close> are in, \<open>.\<close> and \<open>1.1.\<close> are out); then nothing, or an exponent
  marker, an optional sign and at least one digit up to the end of the input.
\<close>

definition stripSign :: "bytes \<Rightarrow> bytes" where
  "stripSign s = (case s of [] \<Rightarrow> [] | c # r \<Rightarrow> if c = CHR ''+'' \<or> c = CHR ''-'' then r else s)"

definition isMantissaByte :: "char \<Rightarrow> bool" where
  "isMantissaByte c = (isDigit c \<or> c = CHR ''.'')"

definition points :: "bytes \<Rightarrow> nat" where
  "points s = length (filter (\<lambda>c. c = CHR ''.'') s)"

definition exponentGrammar :: "bytes \<Rightarrow> bool" where
  "exponentGrammar r =
     (case r of
        [] \<Rightarrow> True
      | c # r1 \<Rightarrow> (c = CHR ''e'' \<or> c = CHR ''E'') \<and> stripSign r1 \<noteq> [] \<and> list_all isDigit (stripSign r1))"

definition specGrammar :: "bytes \<Rightarrow> bool" where
  "specGrammar ba =
     (let body = stripSign ba;
          r1 = dropWhile isDigit body
      in takeWhile isDigit body \<noteq> [] \<and>
         (case r1 of
            [] \<Rightarrow> True
          | c # r2 \<Rightarrow>
              if c = CHR ''.'' then takeWhile isDigit r2 \<noteq> [] \<and> exponentGrammar (dropWhile isDigit r2)
              else exponentGrammar r1))"

definition scannerGrammar :: "bytes \<Rightarrow> bool" where
  "scannerGrammar ba =
     (let body = stripSign ba;
          m = takeWhile isMantissaByte body;
          r = dropWhile isMantissaByte body
      in list_ex isDigit m \<and> points m \<le> 1 \<and> exponentGrammar r)"

text \<open>
  The bit patterns of a signed zero and of a signed infinity in a format: all exponent
  bits set above an empty fraction, and the sign in the bit above the exponent.
\<close>

definition zeroBits :: "floatInfo \<Rightarrow> bool \<Rightarrow> 64 word" where
  "zeroBits flt ng = (if ng then push_bit (mantbits flt + expbits flt) 1 else 0)"

definition infBits :: "floatInfo \<Rightarrow> bool \<Rightarrow> 64 word" where
  "infBits flt ng = push_bit (mantbits flt) (mask (expbits flt)) OR zeroBits flt ng"

text \<open>
  The parts of an input the scanners distinguish: the mantissa part (digits and points
  after the optional sign), the exponent part (what follows), the value the exponent loop
  accumulates on it, the sign of the exponent, whether every mantissa digit is zero, and
  whether the input starts with a minus sign.
\<close>

definition mantissaPart :: "bytes \<Rightarrow> bytes" where
  "mantissaPart ba = takeWhile isMantissaByte (stripSign ba)"

definition exponentPart :: "bytes \<Rightarrow> bytes" where
  "exponentPart ba = dropWhile isMantissaByte (stripSign ba)"

definition accumulatedExponent :: "bytes \<Rightarrow> int" where
  "accumulatedExponent ba =
     (case exponentPart ba of [] \<Rightarrow> 0 | c # r1 \<Rightarrow> snd (exp_digits (stripSign r1) 0))"

definition exponentNegative :: "bytes \<Rightarrow> bool" where
  "exponentNegative ba = (case exponentPart ba of c # s # r \<Rightarrow> s = CHR ''-'' | _ \<Rightarrow> False)"

definition mantissaZero :: "bytes \<Rightarrow> bool" where
  "mantissaZero ba = list_all (\<lambda>c. c = CHR ''0'' \<or> c = CHR ''.'') (mantissaPart ba)"

definition inputNegative :: "bytes \<Rightarrow> bool" where
  "inputNegative ba = (case ba of [] \<Rightarrow> False | c # cs \<Rightarrow> c = CHR ''-'')"

section \<open>Auxiliary notions for the proofs\<close>

text \<open>
  The code of \<open>set\<close> and of \<open>readFloat\<close> after their digit loops, as functions of the
  loop's result, and the invariant of \<open>readFloat\<close>'s mantissa: with \<open>k\<close> digits
  accumulated the \<open>uint64\<close> is below \<open>10^k\<close> (so it never wraps, \<open>k\<close> being at most
  19), and it is nonzero as soon as a digit has been counted.
\<close>

definition set_finish :: "(bytes \<times> bool \<times> bool \<times> decimal) option \<Rightarrow> decimal option" where
  "set_finish x =
     (case x of
        None \<Rightarrow> None
      | Some (r, sawdot, sawdigits, a) \<Rightarrow>
          if \<not> sawdigits then None
          else
            let a = (if \<not> sawdot then a\<lparr>dp := nd a\<rparr> else a) in
            (case scan_exponent r of
               None \<Rightarrow> None
             | Some (r, e) \<Rightarrow>
                 let a = a\<lparr>dp := dp a + e\<rparr> in
                 if r \<noteq> [] then None else Some a))"

definition readFloat_finish ::
  "bool \<Rightarrow> (bytes \<times> bool \<times> bool \<times> int \<times> int \<times> int \<times> 64 word \<times> bool) option
    \<Rightarrow> (64 word \<times> int \<times> bool \<times> bool) option" where
  "readFloat_finish ng x =
     (case x of
        None \<Rightarrow> None
      | Some (r, sawdot, sawdigits, n, ndMant, p, mantissa, tr) \<Rightarrow>
          if \<not> sawdigits then None
          else
            let p = (if \<not> sawdot then n else p) in
            (case scan_exponent r of
               None \<Rightarrow> None
             | Some (r, e) \<Rightarrow>
                 let p = p + e in
                 if r \<noteq> [] then None
                 else Some (mantissa, (if mantissa \<noteq> 0 then p - ndMant else 0), ng, tr)))"

definition mant_inv :: "int \<Rightarrow> int \<Rightarrow> 64 word \<Rightarrow> bool" where
  "mant_inv n k m \<longleftrightarrow> 0 \<le> k \<and> k \<le> 19 \<and> unat m < 10 ^ nat k \<and> (0 < n \<longrightarrow> m \<noteq> 0) \<and> (n = 0 \<longrightarrow> m = 0 \<and> k = 0)"

section \<open>Bytes and case folding\<close>

lemma char_eq_code: "(c = c') = (of_char c = (of_char c' :: nat))"
  by simp

lemma lowerByte_code:
  "(of_char (lowerByte c) :: nat) =
     (if 65 \<le> (of_char c :: nat) \<and> (of_char c :: nat) \<le> 90 then of_char c + 32 else of_char c)"
proof -
  have "(of_char c :: nat) < 256" by simp
  then have "(of_char c + 32) mod 256 = (of_char c + 32 :: nat)" if "(of_char c :: nat) \<le> 90"
    using that by simp
  then show ?thesis
    by (simp add: lowerByte_def less_eq_char_def)
qed

lemma lowerByte_i: "lowerByte c = CHR ''i'' \<longleftrightarrow> c = CHR ''i'' \<or> c = CHR ''I''"
  by (simp only: char_eq_code [of _ "CHR ''i''"] char_eq_code [of _ "CHR ''I''"] lowerByte_code) auto

lemma lowerByte_n: "lowerByte c = CHR ''n'' \<longleftrightarrow> c = CHR ''n'' \<or> c = CHR ''N''"
  by (simp only: char_eq_code [of _ "CHR ''n''"] char_eq_code [of _ "CHR ''N''"] lowerByte_code) auto

lemma lowerByte_plus: "lowerByte c = CHR ''+'' \<longleftrightarrow> c = CHR ''+''"
  by (simp only: char_eq_code [of _ "CHR ''+''"] lowerByte_code) auto

lemma lowerByte_minus: "lowerByte c = CHR ''-'' \<longleftrightarrow> c = CHR ''-''"
  by (simp only: char_eq_code [of _ "CHR ''-''"] lowerByte_code) auto

lemma equalIgnoreCase_iff: "equalIgnoreCase s t \<longleftrightarrow> map lowerByte s = map lowerByte t"
  by (induction s t rule: equalIgnoreCase.induct) auto

lemma EqualFold_lower:
  "map lowerByte t = t \<Longrightarrow> EqualFold ba t \<longleftrightarrow> matchesIgnoreCase ba t"
  by (simp add: EqualFold_def equalIgnoreCase_iff matchesIgnoreCase_def)

lemma EqualFold_spellings:
  "EqualFold ba ''inf'' \<longleftrightarrow> matchesIgnoreCase ba ''inf''"
  "EqualFold ba ''infinity'' \<longleftrightarrow> matchesIgnoreCase ba ''infinity''"
  "EqualFold ba ''+inf'' \<longleftrightarrow> matchesIgnoreCase ba ''+inf''"
  "EqualFold ba ''+infinity'' \<longleftrightarrow> matchesIgnoreCase ba ''+infinity''"
  "EqualFold ba ''-inf'' \<longleftrightarrow> matchesIgnoreCase ba ''-inf''"
  "EqualFold ba ''-infinity'' \<longleftrightarrow> matchesIgnoreCase ba ''-infinity''"
  "EqualFold ba ''nan'' \<longleftrightarrow> matchesIgnoreCase ba ''nan''"
  by (rule EqualFold_lower, simp add: lowerByte_def)+

lemma lowerByte_eq_iff:
  "lowerByte c = c' \<longleftrightarrow>
     (if 65 \<le> (of_char c :: nat) \<and> (of_char c :: nat) \<le> 90 then of_char c + 32 else of_char c)
       = (of_char c' :: nat)"
  by (simp only: char_eq_code [of "lowerByte c"] lowerByte_code)

section \<open>FormatBool\<close>

text \<open>
  C9.  FormatBool(b) is documented to return "true" or "false" according to b.  The code
  returns "true" on both branches: at \<open>b = False\<close> the result is "true", not "false",
  while the sibling \<open>AppendBool\<close> appends "false" there.
\<close>

theorem FormatBool_false_is_true:
  "FormatBool False = ''true'' \<and> FormatBool False \<noteq> ''false'' \<and> AppendBool [] False = ''false''"
  by (simp add: FormatBool_def AppendBool_def)

section \<open>The special-value recognizer\<close>

lemma special_char:
  "special ba =
     (if matchesIgnoreCase ba ''inf'' \<or> matchesIgnoreCase ba ''+inf'' \<or> matchesIgnoreCase ba ''infinity''
          \<or> matchesIgnoreCase ba ''+infinity'' then Some Inf_pos
      else if matchesIgnoreCase ba ''-inf'' \<or> matchesIgnoreCase ba ''-infinity'' then Some Inf_neg
      else if matchesIgnoreCase ba ''nan'' then Some NaN
      else None)"
proof (cases ba)
  case Nil
  then show ?thesis by (simp add: special_def matchesIgnoreCase_def)
next
  case (Cons c cs)
  show ?thesis
    unfolding special_def infinity_def negInfinity_def nan_def list_ex_Nil_iff list_ex_Cons_iff EqualFold_spellings
    unfolding Cons list.case
    using lowerByte_i [of c] lowerByte_n [of c] lowerByte_plus [of c] lowerByte_minus [of c]
    by (auto simp add: matchesIgnoreCase_def)
qed

lemma Batof64_scan_fails:
  "special ba = None \<Longrightarrow> readFloat ba = None \<Longrightarrow> set_decimal decimal_zero ba = None
    \<Longrightarrow> Batof64 env opt ba = Some (0, Some (syntaxError fnParseFloat ba))"
  by (simp add: Batof64_def)

lemma Batof32_scan_fails:
  "special ba = None \<Longrightarrow> readFloat ba = None \<Longrightarrow> set_decimal decimal_zero ba = None
    \<Longrightarrow> Batof32 env opt ba = Some (0, Some (syntaxError fnParseFloat ba))"
  by (simp add: Batof32_def)

lemma letter_not_numeric:
  assumes "c \<in> {CHR ''i'', CHR ''I'', CHR ''n'', CHR ''N''}"
  shows "c \<noteq> CHR ''+''" "c \<noteq> CHR ''-''" "c \<noteq> CHR ''.''" "\<not> isDigit c"
  using assms by (auto simp: isDigit_def)

lemma readFloat_stray_first:
  "c \<noteq> CHR ''+'' \<Longrightarrow> c \<noteq> CHR ''-'' \<Longrightarrow> c \<noteq> CHR ''.'' \<Longrightarrow> \<not> isDigit c \<Longrightarrow> readFloat (c # cs) = None"
  by (simp add: readFloat_def)

lemma set_stray_first:
  "c \<noteq> CHR ''+'' \<Longrightarrow> c \<noteq> CHR ''-'' \<Longrightarrow> c \<noteq> CHR ''.'' \<Longrightarrow> \<not> isDigit c \<Longrightarrow> set_decimal a (c # cs) = None"
  by (simp add: set_decimal_def)

lemma readFloat_sign_stray:
  "sg = CHR ''+'' \<or> sg = CHR ''-'' \<Longrightarrow> c \<noteq> CHR ''.'' \<Longrightarrow> \<not> isDigit c \<Longrightarrow> readFloat (sg # c # cs) = None"
  by (auto simp add: readFloat_def)

lemma set_sign_stray:
  "sg = CHR ''+'' \<or> sg = CHR ''-'' \<Longrightarrow> c \<noteq> CHR ''.'' \<Longrightarrow> \<not> isDigit c \<Longrightarrow> set_decimal a (sg # c # cs) = None"
  by (auto simp add: set_decimal_def)

text \<open>
  C5.  The recognizer returns +Inf exactly for the whole-input, case-insensitive matches
  of inf, +inf, infinity, +infinity, -Inf exactly for those of -inf, -infinity, NaN
  exactly for those of nan, and nothing for any other input (so no prefix or partial
  match is accepted); an input that begins with i, I, n or N and is not such a match
  fails in both entry points with a Syntax error and the value 0.
\<close>

theorem special_whole_input_only:
  "special ba =
     (if matchesIgnoreCase ba ''inf'' \<or> matchesIgnoreCase ba ''+inf'' \<or> matchesIgnoreCase ba ''infinity''
          \<or> matchesIgnoreCase ba ''+infinity'' then Some Inf_pos
      else if matchesIgnoreCase ba ''-inf'' \<or> matchesIgnoreCase ba ''-infinity'' then Some Inf_neg
      else if matchesIgnoreCase ba ''nan'' then Some NaN
      else None)
   \<and> isNaN NaN
   \<and> (c \<in> {CHR ''i'', CHR ''I'', CHR ''n'', CHR ''N''} \<and> special (c # cs) = None \<longrightarrow>
        Batof64 env opt (c # cs) = Some (0, Some (syntaxError fnParseFloat (c # cs))) \<and>
        Batof32 env opt (c # cs) = Some (0, Some (syntaxError fnParseFloat (c # cs))))"
proof (intro conjI impI)
  show "isNaN NaN" by (simp add: isNaN_def NaN_def)
next
  assume h: "c \<in> {CHR ''i'', CHR ''I'', CHR ''n'', CHR ''N''} \<and> special (c # cs) = None"
  then have r: "readFloat (c # cs) = None" and s: "set_decimal decimal_zero (c # cs) = None"
    using letter_not_numeric [of c] by (simp_all add: readFloat_stray_first set_stray_first)
  from h r s show "Batof64 env opt (c # cs) = Some (0, Some (syntaxError fnParseFloat (c # cs)))"
    by (simp add: Batof64_scan_fails)
  from h r s show "Batof32 env opt (c # cs) = Some (0, Some (syntaxError fnParseFloat (c # cs)))"
    by (simp add: Batof32_scan_fails)
qed (rule special_char)

theorem special_whole_input_only_witness:
  "special ''+InFiNiTy'' = Some Inf_pos \<and> special ''-INF'' = Some Inf_neg \<and> special ''NaN'' = Some NaN
   \<and> special ''infin'' = None \<and> special ''nano'' = None
   \<and> Batof64 sample_env True ''infin'' = Some (0, Some (syntaxError fnParseFloat ''infin''))
   \<and> Batof32 sample_env True ''nano'' = Some (0, Some (syntaxError fnParseFloat ''nano''))"
  using special_whole_input_only [of "''+InFiNiTy''"]
    special_whole_input_only [of "''-INF''"]
    special_whole_input_only [of "''NaN''"]
    special_whole_input_only [of "''infin''" "CHR ''i''" "''nfin''" sample_env True]
    special_whole_input_only [of "''nano''" "CHR ''n''" "''ano''" sample_env True]
  by (simp add: matchesIgnoreCase_def lowerByte_eq_iff)

text \<open>
  C6.  As stated (an optional sign before nan is accepted and yields NaN) the claim fails:
  "+nan" and "-NaN" are not recognized and the parse ends in a Syntax error.
\<close>

theorem signed_nan_counterexample:
  "special ''+nan'' = None
   \<and> Batof64 sample_env True ''+nan'' = Some (0, Some (syntaxError fnParseFloat ''+nan''))
   \<and> Batof32 sample_env True ''-NaN'' = Some (0, Some (syntaxError fnParseFloat ''-NaN''))"
  by (simp add: special_char matchesIgnoreCase_def lowerByte_eq_iff Batof64_scan_fails Batof32_scan_fails
      readFloat_sign_stray set_sign_stray isDigit_def)

text \<open>
  C6, as the code has it.  Every case variant of nan without a sign is recognized before
  any numeric parsing and yields NaN with no error, in both entry points; the same
  spelling behind a + or - sign is not recognized and fails with a Syntax error and the
  value 0.
\<close>

theorem nan_spellings_unsigned:
  assumes "matchesIgnoreCase s ''nan''"
  shows "Batof64 env opt s = Some (NaN, None) \<and> isNaN NaN
       \<and> Batof32 env opt s = Some (0x7FC00000, None) \<and> isNaN32 0x7FC00000
       \<and> (sg = CHR ''+'' \<or> sg = CHR ''-'' \<longrightarrow>
            special (sg # s) = None
          \<and> Batof64 env opt (sg # s) = Some (0, Some (syntaxError fnParseFloat (sg # s)))
          \<and> Batof32 env opt (sg # s) = Some (0, Some (syntaxError fnParseFloat (sg # s))))"
proof -
  from assms obtain c cs where s: "s = c # cs" and c: "c = CHR ''n'' \<or> c = CHR ''N''"
    by (cases s) (auto simp: matchesIgnoreCase_def lowerByte_n)
  have sp: "special s = Some NaN"
    using assms by (simp add: special_char matchesIgnoreCase_def)
  have a: "Batof64 env opt s = Some (NaN, None)"
    by (simp add: Batof64_def sp)
  have b: "Batof32 env opt s = Some (0x7FC00000, None)"
    by (simp add: Batof32_def sp float32_of_special_def NaN_def mask_eq_exp_minus_1)
  have n: "c \<noteq> CHR ''.''" "\<not> isDigit c" using c by (auto simp: isDigit_def)
  have sg: "special (sg # s) = None
          \<and> Batof64 env opt (sg # s) = Some (0, Some (syntaxError fnParseFloat (sg # s)))
          \<and> Batof32 env opt (sg # s) = Some (0, Some (syntaxError fnParseFloat (sg # s)))"
    if h: "sg = CHR ''+'' \<or> sg = CHR ''-''"
  proof -
    have m: "map lowerByte (sg # s) = sg # ''nan''"
      using assms h by (auto simp: matchesIgnoreCase_def lowerByte_eq_iff)
    have x: "special (sg # s) = None"
      using h by (auto simp add: special_char matchesIgnoreCase_def m simp del: list.map)
    show ?thesis
      using x h n unfolding s
      by (simp add: Batof64_scan_fails Batof32_scan_fails readFloat_sign_stray set_sign_stray)
  qed
  show ?thesis using a b sg by (simp add: isNaN_def NaN_def isNaN32_def)
qed

theorem nan_spellings_unsigned_witness:
  "matchesIgnoreCase ''NaN'' ''nan'' \<and> Batof64 sample_env True ''NaN'' = Some (NaN, None)
   \<and> Batof32 sample_env True ''NaN'' = Some (0x7FC00000, None)
   \<and> Batof64 sample_env True ''-NaN'' = Some (0, Some (syntaxError fnParseFloat ''-NaN''))"
proof -
  have h: "matchesIgnoreCase ''NaN'' ''nan''" by (simp add: matchesIgnoreCase_def lowerByte_eq_iff)
  show ?thesis using h nan_spellings_unsigned [OF h, of sample_env True "CHR ''-''"] by simp
qed

section \<open>The scanners accept the decimal grammar\<close>

lemma set_digits_None:
  "set_digits cs sawdot sawdigits a = None \<longleftrightarrow>
     (if sawdot then 1 else 0) + points (takeWhile isMantissaByte cs) > 1"
  by (induction cs arbitrary: sawdot sawdigits a) (auto simp: isMantissaByte_def points_def isDigit_def)

lemma set_digits_Some:
  "set_digits cs sawdot sawdigits a = Some (r, sd, sg, a') \<Longrightarrow>
     r = dropWhile isMantissaByte cs \<and> (sg \<longleftrightarrow> sawdigits \<or> list_ex isDigit (takeWhile isMantissaByte cs))"
  by (induction cs arbitrary: sawdot sawdigits a) (auto simp: isMantissaByte_def isDigit_def split: if_splits)

lemma readFloat_digits_None:
  "readFloat_digits cs sawdot sawdigits n ndMant p mantissa tr = None \<longleftrightarrow>
     (if sawdot then 1 else 0) + points (takeWhile isMantissaByte cs) > 1"
  by (induction cs arbitrary: sawdot sawdigits n ndMant p mantissa tr) (auto simp: isMantissaByte_def points_def isDigit_def)

lemma readFloat_digits_Some:
  "readFloat_digits cs sawdot sawdigits n ndMant p mantissa tr = Some (r, sd, sg, rest) \<Longrightarrow>
     r = dropWhile isMantissaByte cs \<and> (sg \<longleftrightarrow> sawdigits \<or> list_ex isDigit (takeWhile isMantissaByte cs))"
proof (induction cs arbitrary: sawdot sawdigits n ndMant p mantissa tr)
  case Nil
  then show ?case by auto
next
  case (Cons c cs)
  show ?case
  proof (cases "isMantissaByte c")
    case False
    then show ?thesis using Cons.prems by (auto simp: isMantissaByte_def)
  next
    case True
    from Cons.prems True obtain sawdot' sawdigits' n' ndMant' p' mantissa' tr' where
      step: "readFloat_digits cs sawdot' sawdigits' n' ndMant' p' mantissa' tr' = Some (r, sd, sg, rest)"
      and sg: "sawdigits' = (sawdigits \<or> isDigit c)"
      by (auto simp: isMantissaByte_def isDigit_def split: if_splits)
    from Cons.IH [OF step] sg True show ?thesis by auto
  qed
qed

lemma exp_digits_rest: "fst (exp_digits r e) = dropWhile isDigit r"
  by (induction r arbitrary: e) auto

lemma dropWhile_Nil_iff: "dropWhile P xs = [] \<longleftrightarrow> list_all P xs"
  by (induction xs) auto

lemma digit_test: "(x < CHR ''0'' \<or> x > CHR ''9'') = (\<not> isDigit x)"
  by (auto simp: isDigit_def)

lemma scan_exponent_marker:
  assumes "c = CHR ''e'' \<or> c = CHR ''E''"
  shows "scan_exponent (c # r1) =
           (case stripSign r1 of
              [] \<Rightarrow> None
            | x # xs \<Rightarrow>
                if \<not> isDigit x then None
                else Some (fst (exp_digits (x # xs) 0),
                           snd (exp_digits (x # xs) 0) * (if r1 \<noteq> [] \<and> hd r1 = CHR ''-'' then - 1 else 1)))"
proof (cases r1)
  case Nil
  then show ?thesis using assms by (simp add: scan_exponent_def stripSign_def)
next
  case (Cons s r2)
  consider "s = CHR ''+''" | "s = CHR ''-''" | "s \<noteq> CHR ''+''" "s \<noteq> CHR ''-''" by blast
  then show ?thesis
  proof cases
    case 1
    then show ?thesis using assms Cons
      by (simp add: scan_exponent_def stripSign_def digit_test split_beta split: list.split)
  next
    case 2
    then show ?thesis using assms Cons
      by (simp add: scan_exponent_def stripSign_def digit_test split_beta split: list.split)
  next
    case 3
    then show ?thesis using assms Cons
      by (simp add: scan_exponent_def stripSign_def digit_test split_beta)
  qed
qed

lemma scan_exponent_no_marker:
  "c \<noteq> CHR ''e'' \<Longrightarrow> c \<noteq> CHR ''E'' \<Longrightarrow> scan_exponent (c # r1) = Some (c # r1, 0)"
  by (simp add: scan_exponent_def)

lemma scan_exponent_ok:
  "(\<exists>e. scan_exponent r = Some ([], e)) \<longleftrightarrow> exponentGrammar r"
proof (cases r)
  case Nil
  then show ?thesis by (simp add: scan_exponent_def exponentGrammar_def)
next
  case (Cons c r1)
  show ?thesis
  proof (cases "c = CHR ''e'' \<or> c = CHR ''E''")
    case False
    then show ?thesis by (simp add: scan_exponent_no_marker exponentGrammar_def Cons)
  next
    case True
    show ?thesis unfolding Cons scan_exponent_marker [OF True]
      using True
      by (cases "stripSign r1")
         (simp_all add: exponentGrammar_def exp_digits_rest dropWhile_Nil_iff list_all_iff del: exp_digits.simps)
  qed
qed

lemma set_decimal_ok_iff: "set_decimal a0 ba \<noteq> None \<longleftrightarrow> scannerGrammar ba"
proof (cases ba)
  case Nil
  then show ?thesis by (simp add: set_decimal_def scannerGrammar_def stripSign_def)
next
  case (Cons c cs)
  define body where "body = stripSign ba"
  define m where "m = takeWhile isMantissaByte body"
  define fin :: "(bytes \<times> bool \<times> bool \<times> decimal) option \<Rightarrow> decimal option" where
    "fin = (\<lambda>x. case x of
              None \<Rightarrow> None
            | Some (r, sawdot, sawdigits, a) \<Rightarrow>
                if \<not> sawdigits then None
                else
                  let a = (if \<not> sawdot then a\<lparr>dp := nd a\<rparr> else a) in
                  (case scan_exponent r of
                     None \<Rightarrow> None
                   | Some (r, e) \<Rightarrow>
                       let a = a\<lparr>dp := dp a + e\<rparr> in
                       if r \<noteq> [] then None else Some a))"
  have g: "scannerGrammar ba \<longleftrightarrow> list_ex isDigit m \<and> points m \<le> 1 \<and> exponentGrammar (dropWhile isMantissaByte body)"
    by (simp add: scannerGrammar_def body_def m_def Let_def)
  have "\<exists>a1. set_decimal a0 ba = fin (set_digits body False False a1)"
  proof (cases "c = CHR ''+'' \<or> c = CHR ''-''")
    case True
    then have b: "body = cs" by (auto simp: body_def Cons stripSign_def)
    show ?thesis unfolding b set_decimal_def fin_def Cons using True
      by (auto simp del: set_digits.simps)
  next
    case False
    then have b: "body = c # cs" by (auto simp: body_def Cons stripSign_def)
    show ?thesis unfolding b set_decimal_def fin_def Cons using False
      by (auto simp del: set_digits.simps)
  qed
  then obtain a1 where eq: "set_decimal a0 ba = fin (set_digits body False False a1)"
    by blast
  show ?thesis
  proof (cases "set_digits body False False a1")
    case None
    then have "points m > 1" by (simp add: set_digits_None m_def)
    then show ?thesis using None by (simp add: eq g fin_def)
  next
    case (Some t)
    obtain r sd sg a' where t: "t = (r, sd, sg, a')" by (cases t) auto
    from Some t set_digits_Some [of body False False a1 r sd sg a']
    have r: "r = dropWhile isMantissaByte body" and sg: "sg \<longleftrightarrow> list_ex isDigit m"
      by (simp_all add: m_def)
    from Some set_digits_None [of body False False a1] have p: "points m \<le> 1"
      by (simp add: m_def)
    show ?thesis
    proof (cases "scan_exponent r")
      case None
      with scan_exponent_ok [of r] have "\<not> exponentGrammar r" by simp
      then show ?thesis using None Some t r by (simp add: eq g fin_def)
    next
      case (Some u)
      obtain r' e where u: "u = (r', e)" by (cases u) auto
      from Some u scan_exponent_ok [of r] have "exponentGrammar r \<longleftrightarrow> r' = []" by auto
      then show ?thesis using Some u \<open>set_digits body False False a1 = Some t\<close> t r sg p
        by (simp add: eq g fin_def Let_def)
    qed
  qed
qed

lemma readFloat_ok_iff: "readFloat ba \<noteq> None \<longleftrightarrow> scannerGrammar ba"
proof (cases ba)
  case Nil
  then show ?thesis by (simp add: readFloat_def scannerGrammar_def stripSign_def)
next
  case (Cons c cs)
  define body where "body = stripSign ba"
  define m where "m = takeWhile isMantissaByte body"
  define fin ::
    "bool \<Rightarrow> (bytes \<times> bool \<times> bool \<times> int \<times> int \<times> int \<times> 64 word \<times> bool) option
      \<Rightarrow> (64 word \<times> int \<times> bool \<times> bool) option" where
    "fin = (\<lambda>ng x. case x of
              None \<Rightarrow> None
            | Some (r, sawdot, sawdigits, n, ndMant, p, mantissa, tr) \<Rightarrow>
                if \<not> sawdigits then None
                else
                  let p = (if \<not> sawdot then n else p) in
                  (case scan_exponent r of
                     None \<Rightarrow> None
                   | Some (r, e) \<Rightarrow>
                       let p = p + e in
                       if r \<noteq> [] then None
                       else Some (mantissa, (if mantissa \<noteq> 0 then p - ndMant else 0), ng, tr)))"
  have g: "scannerGrammar ba \<longleftrightarrow> list_ex isDigit m \<and> points m \<le> 1 \<and> exponentGrammar (dropWhile isMantissaByte body)"
    by (simp add: scannerGrammar_def body_def m_def Let_def)
  have "\<exists>ng. readFloat ba = fin ng (readFloat_digits body False False 0 0 0 0 False)"
  proof (cases "c = CHR ''+'' \<or> c = CHR ''-''")
    case True
    then have b: "body = cs" by (auto simp: body_def Cons stripSign_def)
    show ?thesis unfolding b readFloat_def fin_def Cons using True
      by (auto simp del: readFloat_digits.simps)
  next
    case False
    then have b: "body = c # cs" by (auto simp: body_def Cons stripSign_def)
    show ?thesis unfolding b readFloat_def fin_def Cons using False
      by (auto simp del: readFloat_digits.simps)
  qed
  then obtain ng where eq: "readFloat ba = fin ng (readFloat_digits body False False 0 0 0 0 False)"
    by blast
  show ?thesis
  proof (cases "readFloat_digits body False False 0 0 0 0 False")
    case None
    then have "points m > 1" by (simp add: readFloat_digits_None m_def)
    then show ?thesis using None by (simp add: eq g fin_def)
  next
    case (Some t)
    obtain r sd sg rest where t: "t = (r, sd, sg, rest)" by (cases t) auto
    obtain n ndMant p mantissa tr where rest: "rest = (n, ndMant, p, mantissa, tr)" by (cases rest) auto
    from Some t readFloat_digits_Some [of body False False 0 0 0 0 False r sd sg rest]
    have r: "r = dropWhile isMantissaByte body" and sg: "sg \<longleftrightarrow> list_ex isDigit m"
      by (simp_all add: m_def)
    from Some readFloat_digits_None [of body False False 0 0 0 0 False] have p: "points m \<le> 1"
      by (simp add: m_def)
    show ?thesis
    proof (cases "scan_exponent r")
      case None
      with scan_exponent_ok [of r] have "\<not> exponentGrammar r" by simp
      then show ?thesis using None Some t rest r by (simp add: eq g fin_def)
    next
      case (Some u)
      obtain r' e where u: "u = (r', e)" by (cases u) auto
      from Some u scan_exponent_ok [of r] have "exponentGrammar r \<longleftrightarrow> r' = []" by auto
      then show ?thesis
        using Some u \<open>readFloat_digits body False False 0 0 0 0 False = Some t\<close> t rest r sg p
        by (simp add: eq g fin_def Let_def)
    qed
  qed
qed

lemma accepted_not_syntax_error:
  assumes "special ba = None" and "scannerGrammar ba"
  shows "Batof64 env opt ba \<noteq> Some (0, Some (syntaxError fnParseFloat ba))"
    and "Batof32 env opt ba \<noteq> Some (0, Some (syntaxError fnParseFloat ba))"
proof -
  from assms(2) obtain a where a: "set_decimal decimal_zero ba = Some a"
    using set_decimal_ok_iff [of decimal_zero ba] by auto
  show "Batof64 env opt ba \<noteq> Some (0, Some (syntaxError fnParseFloat ba))"
    using assms(1) a
    by (auto simp: Batof64_def Let_def syntaxError_def rangeError_def split: option.splits if_splits)
  show "Batof32 env opt ba \<noteq> Some (0, Some (syntaxError fnParseFloat ba))"
    using assms(1) a
    by (auto simp: Batof32_def Let_def syntaxError_def rangeError_def split: option.splits if_splits)
qed

lemma takeWhile_dropWhile_split:
  assumes "\<forall>x\<in>set xs. P x" and "ys = [] \<or> \<not> P (hd ys)"
  shows "takeWhile P (xs @ ys) = xs" and "dropWhile P (xs @ ys) = ys"
proof -
  from assms(2) have t: "takeWhile P ys = []" and d: "dropWhile P ys = ys"
    by (cases ys; auto)+
  from assms(1) show "takeWhile P (xs @ ys) = xs" by (simp add: t)
  from assms(1) show "dropWhile P (xs @ ys) = ys" by (simp add: d)
qed

lemma digits_no_point: "\<forall>x\<in>set xs. isDigit x \<Longrightarrow> points xs = 0"
  by (induction xs) (auto simp: points_def isDigit_def)

lemma exponentGrammar_head: "exponentGrammar r \<Longrightarrow> r = [] \<or> \<not> isMantissaByte (hd r)"
  by (cases r) (auto simp: exponentGrammar_def isMantissaByte_def isDigit_def)

lemma specGrammar_accepted:
  assumes "specGrammar ba"
  shows "scannerGrammar ba"
proof -
  define body where "body = stripSign ba"
  define ip where "ip = takeWhile isDigit body"
  define r1 where "r1 = dropWhile isDigit body"
  have b: "body = ip @ r1" by (simp add: ip_def r1_def)
  have ipd: "\<forall>x\<in>set ip. isDigit x" unfolding ip_def by (auto dest: set_takeWhileD)
  from assms have ne: "ip \<noteq> []" by (simp add: specGrammar_def Let_def ip_def body_def)
  then obtain c0 where c0: "c0 \<in> set ip" by (cases ip) auto
  have g: "scannerGrammar ba \<longleftrightarrow>
      list_ex isDigit (takeWhile isMantissaByte body) \<and> points (takeWhile isMantissaByte body) \<le> 1
      \<and> exponentGrammar (dropWhile isMantissaByte body)"
    by (simp add: scannerGrammar_def Let_def body_def)
  show ?thesis
  proof (cases "r1 \<noteq> [] \<and> hd r1 = CHR ''.''")
    case True
    then obtain r2 where r2: "r1 = CHR ''.'' # r2" by (cases r1) auto
    define fp where "fp = takeWhile isDigit r2"
    define r3 where "r3 = dropWhile isDigit r2"
    from assms r2 have e: "exponentGrammar r3"
      by (simp add: specGrammar_def Let_def body_def [symmetric] r1_def [symmetric] r3_def)
    have fpd: "\<forall>x\<in>set fp. isDigit x" unfolding fp_def by (auto dest: set_takeWhileD)
    have b': "body = (ip @ CHR ''.'' # fp) @ r3" by (simp add: b r2 fp_def r3_def)
    have allm: "\<forall>x\<in>set (ip @ CHR ''.'' # fp). isMantissaByte x"
      using ipd fpd by (auto simp: isMantissaByte_def)
    note sp = takeWhile_dropWhile_split [OF allm exponentGrammar_head [OF e]]
    have "points (ip @ CHR ''.'' # fp) = 1"
      using digits_no_point [OF ipd] digits_no_point [OF fpd] by (simp add: points_def)
    moreover have "list_ex isDigit (ip @ CHR ''.'' # fp)" using ipd c0 by (auto simp: list_ex_iff)
    ultimately show ?thesis using e unfolding g b' sp by simp
  next
    case False
    with assms have e: "exponentGrammar r1"
      by (cases r1)
         (auto simp: specGrammar_def Let_def body_def [symmetric] r1_def [symmetric] exponentGrammar_def)
    have allm: "\<forall>x\<in>set ip. isMantissaByte x" using ipd by (auto simp: isMantissaByte_def)
    note sp = takeWhile_dropWhile_split [OF allm exponentGrammar_head [OF e]]
    have "list_ex isDigit ip" using ipd c0 by (auto simp: list_ex_iff)
    then show ?thesis using e digits_no_point [OF ipd] unfolding g b sp by simp
  qed
qed

lemma exact_tier_five:
  "batof64exact env 5 0 False = Some 0x4014000000000000"
  "batof32exact env 5 0 False = Some 0x40A00000"
  by (simp_all add: batof64exact_def batof32exact_def float64info_def float32info_def
      float64_of_uint64_def float32_of_uint64_def mask_eq_exp_minus_1)

text \<open>
  C4.  As stated, with the grammar of the specification (an empty digit run, or a sign
  with no digit after it, is a violation), the claim fails: \<open>5.\<close> has no digit after
  its point and \<open>+.5\<close> no digit after its sign, neither is a special-value spelling,
  and neither fails.  \<open>5.\<close> parses as 5.0 with no error in both entry points (by the
  exact tier, whatever the parameters are), and \<open>.5\<close> and \<open>+.5\<close> do not end in a
  Syntax error.
\<close>

theorem empty_digit_run_counterexample:
  "special ''5.'' = None \<and> \<not> specGrammar ''5.''
   \<and> Batof64 sample_env True ''5.'' = Some (0x4014000000000000, None)
   \<and> Batof32 sample_env True ''5.'' = Some (0x40A00000, None)
   \<and> special ''.5'' = None \<and> \<not> specGrammar ''.5''
   \<and> Batof64 sample_env False ''.5'' \<noteq> Some (0, Some (syntaxError fnParseFloat ''.5''))
   \<and> special ''+.5'' = None \<and> \<not> specGrammar ''+.5''
   \<and> Batof64 sample_env False ''+.5'' \<noteq> Some (0, Some (syntaxError fnParseFloat ''+.5''))"
proof -
  have s: "special ''5.'' = None" "special ''.5'' = None" "special ''+.5'' = None"
    by (simp_all add: special_char matchesIgnoreCase_def lowerByte_eq_iff)
  have g: "\<not> specGrammar ''5.''" "\<not> specGrammar ''.5''" "\<not> specGrammar ''+.5''"
    "scannerGrammar ''.5''" "scannerGrammar ''+.5''"
    by (simp_all add: specGrammar_def scannerGrammar_def stripSign_def isMantissaByte_def isDigit_def
        points_def exponentGrammar_def)
  have rf: "readFloat ''5.'' = Some (5, 0, False, False)"
    by (simp add: readFloat_def isDigit_def scan_exponent_def)
  have a: "Batof64 sample_env True ''5.'' = Some (0x4014000000000000, None)"
    by (simp add: Batof64_def s rf exact_tier_five)
  have b: "Batof32 sample_env True ''5.'' = Some (0x40A00000, None)"
    by (simp add: Batof32_def s rf exact_tier_five)
  show ?thesis
    using s g(1-3) a b accepted_not_syntax_error(1) [OF s(2) g(4), of sample_env False]
      accepted_not_syntax_error(1) [OF s(3) g(5), of sample_env False]
    by blast
qed

text \<open>
  C4, as the code has it.  For every input that is not a special-value spelling, both
  entry points return the value 0 together with a Syntax error exactly when the input is
  outside the grammar the scanners accept: an optional sign, a run of digits and at most
  one decimal point holding at least one digit, and an optional exponent of a marker, an
  optional sign and at least one digit.  So empty input, a second decimal point, no
  digit at all after the sign, an exponent marker not followed by a digit, a stray byte
  and input left over all fail, whatever the \<open>optimize\<close> flag and the tiers compute.
  Every numeral of the specification's grammar is accepted; so are numerals with an
  empty digit run on one side of the point, such as \<open>5.\<close>, \<open>.5\<close> and \<open>+.5\<close>.
\<close>

theorem malformed_input_is_syntax_error:
  assumes "special ba = None"
  shows "(\<not> scannerGrammar ba \<longleftrightarrow> Batof64 env opt ba = Some (0, Some (syntaxError fnParseFloat ba)))
       \<and> (\<not> scannerGrammar ba \<longleftrightarrow> Batof32 env opt ba = Some (0, Some (syntaxError fnParseFloat ba)))
       \<and> (specGrammar ba \<longrightarrow> scannerGrammar ba)"
proof (cases "scannerGrammar ba")
  case False
  then have "readFloat ba = None" "set_decimal decimal_zero ba = None"
    using readFloat_ok_iff [of ba] set_decimal_ok_iff [of decimal_zero ba] by blast+
  with assms False show ?thesis
    using specGrammar_accepted [of ba] by (auto simp add: Batof64_scan_fails Batof32_scan_fails)
next
  case True
  with accepted_not_syntax_error [OF assms True, of env opt] show ?thesis by simp
qed

theorem malformed_input_is_syntax_error_witness:
  "special ''1.1.'' = None \<and> \<not> scannerGrammar ''1.1.''
   \<and> Batof64 sample_env True ''1.1.'' = Some (0, Some (syntaxError fnParseFloat ''1.1.''))
   \<and> Batof32 sample_env True ''1.1.'' = Some (0, Some (syntaxError fnParseFloat ''1.1.''))
   \<and> Batof64 sample_env True [] = Some (0, Some (syntaxError fnParseFloat []))
   \<and> Batof64 sample_env False ''+'' = Some (0, Some (syntaxError fnParseFloat ''+''))
   \<and> Batof64 sample_env True ''1e-'' = Some (0, Some (syntaxError fnParseFloat ''1e-''))
   \<and> Batof32 sample_env False ''1x'' = Some (0, Some (syntaxError fnParseFloat ''1x''))
   \<and> specGrammar ''-12.50e+3'' \<and> scannerGrammar ''-12.50e+3''
   \<and> Batof64 sample_env True ''-12.50e+3'' \<noteq> Some (0, Some (syntaxError fnParseFloat ''-12.50e+3''))"
proof -
  have s: "special ''1.1.'' = None" "special [] = None" "special ''+'' = None"
    "special ''1e-'' = None" "special ''1x'' = None" "special ''-12.50e+3'' = None"
    by (simp_all add: special_char matchesIgnoreCase_def lowerByte_eq_iff)
  have g: "\<not> scannerGrammar ''1.1.''" "\<not> scannerGrammar []" "\<not> scannerGrammar ''+''"
    "\<not> scannerGrammar ''1e-''" "\<not> scannerGrammar ''1x''" "specGrammar ''-12.50e+3''"
    by (simp_all add: scannerGrammar_def specGrammar_def stripSign_def isMantissaByte_def isDigit_def
        points_def exponentGrammar_def)
  show ?thesis
    using s g
      malformed_input_is_syntax_error [OF s(1), of sample_env True]
      malformed_input_is_syntax_error [OF s(2), of sample_env True]
      malformed_input_is_syntax_error [OF s(3), of sample_env False]
      malformed_input_is_syntax_error [OF s(4), of sample_env True]
      malformed_input_is_syntax_error [OF s(5), of sample_env False]
      malformed_input_is_syntax_error [OF s(6), of sample_env True]
    by blast
qed

section \<open>The bit assembly of floatBits\<close>

lemma assemble_sign_bit:
  assumes "mantbits flt + expbits flt < 64"
  shows "bit (assemble flt a mant ex) (mantbits flt + expbits flt) \<longleftrightarrow> neg a"
proof -
  have m: "(push_bit (mantbits flt) 1 - 1 :: 64 word) = mask (mantbits flt)"
    by (simp add: mask_eq_exp_minus_1 push_bit_eq_mult)
  have e: "(ex - bias flt) AND (2 ^ expbits flt - 1) = take_bit (expbits flt) (ex - bias flt)"
    by (simp add: take_bit_eq_mask mask_eq_exp_minus_1)
  show ?thesis using assms
    unfolding assemble_def Let_def m e
    by (auto simp add: bit_simps)
qed

lemma assemble_zero: "assemble flt a 0 (bias flt) = zeroBits flt (neg a)"
  by (simp add: assemble_def zeroBits_def push_bit_eq_mult power_add mult.commute)

lemma overflow_exit_inf: "overflow_exit flt a = (infBits flt (neg a), True)"
proof -
  have "(2 ^ expbits flt - 1 :: int) AND (2 ^ expbits flt - 1) = 2 ^ expbits flt - 1" by simp
  moreover have "(word_of_int (2 ^ expbits flt - 1) :: 64 word) = mask (expbits flt)"
    by (simp add: mask_eq_exp_minus_1)
  ultimately show ?thesis
    by (simp add: overflow_exit_def assemble_def infBits_def zeroBits_def)
       (simp add: push_bit_eq_mult power_add mult.commute)
qed

lemma scale_down_neg_aux:
  "scale_down env a ex = Some y \<Longrightarrow> (\<forall>n x. neg (Shift env n x) = neg x) \<longrightarrow> neg (fst y) = neg a"
proof (rule scale_down.raw_induct
    [where P = "\<lambda>env a ex y. (\<forall>n x. neg (Shift env n x) = neg x) \<longrightarrow> neg (fst y) = neg a"])
  show "scale_down env a ex = Some y \<Longrightarrow> scale_down env a ex = Some y" .
next
  fix sd env a ex y
  assume ih: "\<And>a ex b y. sd a ex b = Some y \<Longrightarrow>
                 (\<forall>n x. neg (Shift a n x) = neg x) \<longrightarrow> neg (fst y) = neg ex"
    and st: "(if 0 < dp a
       then let n = if int (length powtab) \<le> dp a then 27 else powtab ! nat (dp a)
            in sd env (Shift env (- n) a) (ex + n)
       else Some (a, ex)) = Some y"
  show "(\<forall>n x. neg (Shift env n x) = neg x) \<longrightarrow> neg (fst y) = neg a"
  proof (cases "0 < dp a")
    case False
    with st show ?thesis by auto
  next
    case True
    with st obtain n where "sd env (Shift env (- n) a) (ex + n) = Some y"
      by (auto simp: Let_def)
    from ih [OF this] show ?thesis by auto
  qed
qed

lemma scale_up_neg_aux:
  "scale_up env a ex = Some y \<Longrightarrow> (\<forall>n x. neg (Shift env n x) = neg x) \<longrightarrow> neg (fst y) = neg a"
proof (rule scale_up.raw_induct
    [where P = "\<lambda>env a ex y. (\<forall>n x. neg (Shift env n x) = neg x) \<longrightarrow> neg (fst y) = neg a"])
  show "scale_up env a ex = Some y \<Longrightarrow> scale_up env a ex = Some y" .
next
  fix su env a ex y
  assume ih: "\<And>a ex b y. su a ex b = Some y \<Longrightarrow>
                 (\<forall>n x. neg (Shift a n x) = neg x) \<longrightarrow> neg (fst y) = neg ex"
    and st: "(if dp a < 0 \<or> dp a = 0 \<and> d a ! 0 < CHR ''5''
       then let n = if int (length powtab) \<le> - dp a then 27 else powtab ! nat (- dp a)
            in su env (Shift env n a) (ex - n)
       else Some (a, ex)) = Some y"
  show "(\<forall>n x. neg (Shift env n x) = neg x) \<longrightarrow> neg (fst y) = neg a"
  proof (cases "dp a < 0 \<or> dp a = 0 \<and> d a ! 0 < CHR ''5''")
    case False
    with st show ?thesis by auto
  next
    case True
    with st obtain n where "su env (Shift env n a) (ex - n) = Some y"
      by (auto simp: Let_def)
    from ih [OF this] show ?thesis by auto
  qed
qed

lemma round_bits_sign_bit:
  assumes "mantbits flt + expbits flt < 64" and "\<And>n x. neg (Shift env n x) = neg x"
  shows "bit (fst (round_bits env flt a ex)) (mantbits flt + expbits flt) \<longleftrightarrow> neg a"
  using assms
  by (simp add: round_bits_def Let_def overflow_exit_def assemble_sign_bit split_beta)

lemma format_bit_patterns:
  "infBits float64info False = Inf_pos" "infBits float64info True = Inf_neg"
  "infBits float32info False = 0x7F800000" "infBits float32info True = 0xFF800000"
  "zeroBits float64info False = 0" "zeroBits float64info True = 0x8000000000000000"
  "zeroBits float32info False = 0" "zeroBits float32info True = 0x80000000"
  by (simp_all add: infBits_def zeroBits_def float64info_def float32info_def Inf_pos_def Inf_neg_def
      mask_eq_exp_minus_1)

lemma sample_env_keeps_sign: "neg (Shift sample_env n x) = neg x"
  by (simp add: sample_env_def)

lemma powtab_pos: "0 \<le> k \<Longrightarrow> k < 9 \<Longrightarrow> 0 < powtab ! nat k"
proof -
  assume "0 \<le> k" "k < 9"
  then have "nat k \<in> {0, 1, 2, 3, 4, 5, 6, 7, 8}" by auto
  then show ?thesis by (auto simp: powtab_def)
qed

lemma scale_down_returns:
  assumes pd: "\<And>x n. 0 < dp x \<Longrightarrow> 0 < n \<Longrightarrow> mdown (Shift env (- n) x) < (mdown x :: nat)"
  shows "\<exists>r. scale_down env a ex = Some r"
proof (induction a arbitrary: ex rule: measure_induct_rule [where f = mdown])
  case (less a)
  show ?case
  proof (cases "0 < dp a")
    case False
    then show ?thesis by (subst scale_down.simps) simp
  next
    case True
    define n where "n = (if dp a \<ge> int (length powtab) then 27 else powtab ! nat (dp a))"
    have n: "0 < n" using True powtab_pos [of "dp a"] by (auto simp: n_def powtab_def)
    from less [OF pd [OF True n], of "ex + n"] obtain r where
      "scale_down env (Shift env (- n) a) (ex + n) = Some r" by blast
    then show ?thesis using True by (subst scale_down.simps) (simp add: n_def Let_def)
  qed
qed

lemma scale_up_returns:
  assumes pu: "\<And>x n. dp x < 0 \<or> dp x = 0 \<and> d x ! 0 < CHR ''5'' \<Longrightarrow> 0 < n
                 \<Longrightarrow> mup (Shift env n x) < (mup x :: nat)"
  shows "\<exists>r. scale_up env a ex = Some r"
proof (induction a arbitrary: ex rule: measure_induct_rule [where f = mup])
  case (less a)
  show ?case
  proof (cases "dp a < 0 \<or> dp a = 0 \<and> d a ! 0 < CHR ''5''")
    case False
    then show ?thesis by (subst scale_up.simps) auto
  next
    case True
    define n where "n = (if - dp a \<ge> int (length powtab) then 27 else powtab ! nat (- dp a))"
    have n: "0 < n" using True powtab_pos [of "- dp a"] by (auto simp: n_def powtab_def)
    from less [OF pu [OF True n], of "ex - n"] obtain r where
      "scale_up env (Shift env n a) (ex - n) = Some r" by blast
    then show ?thesis using True by (subst scale_up.simps) (auto simp add: n_def Let_def)
  qed
qed

lemma round_bits_flagged:
  assumes "\<And>n x. neg (Shift env n x) = neg x" and "snd (round_bits env flt a ex)"
  shows "fst (round_bits env flt a ex) = infBits flt (neg a)"
  using assms
  by (auto simp: round_bits_def Let_def overflow_exit_inf split_beta split: if_splits)

lemma round_bits_exponent_overflow:
  assumes "\<And>n x. neg (Shift env n x) = neg x" and "bias flt + 2 ^ expbits flt \<le> ex"
  shows "round_bits env flt a ex = (infBits flt (neg a), True)"
proof -
  have "(1::int) \<le> 2 ^ expbits flt" by simp
  with assms show ?thesis
    by (auto simp: round_bits_def Let_def overflow_exit_inf)
qed

lemma round_bits_carry_overflow:
  assumes "\<And>n x. neg (Shift env n x) = neg x" and "2 \<le> expbits flt"
    and "ex = bias flt + 2 ^ expbits flt - 1"
    and "RoundedInteger env (Shift env (int (1 + mantbits flt)) a) = push_bit (mantbits flt) 2"
  shows "round_bits env flt a ex = (infBits flt (neg a), True)"
proof -
  have "(2::int) ^ 2 \<le> 2 ^ expbits flt" using assms(2) by (intro power_increasing) auto
  then have "(4::int) \<le> 2 ^ expbits flt" by simp
  with assms show ?thesis
    by (auto simp: round_bits_def Let_def overflow_exit_inf)
qed

lemma step_env_keeps_sign: "neg (Shift step_env n x) = neg x"
  by (simp add: step_env_def)

lemma step_env_progress:
  "\<forall>x n. 0 < dp x \<and> 0 < n \<longrightarrow> nat (dp (Shift step_env (- n) x)) < nat (dp x)"
  "\<forall>x n. (dp x < 0 \<or> dp x = 0 \<and> d x ! 0 < CHR ''5'') \<and> 0 < n
      \<longrightarrow> nat (1 - dp (Shift step_env n x)) < nat (1 - dp x)"
  by (auto simp: step_env_def)

text \<open>
  C10.  For every decimal and every format whose sign bit lies inside the 64-bit word
  (both formats of the package do), \<open>floatBits\<close> carries the sign of the decimal to its
  result on every exit path:
  \<^item> whatever it returns has the sign bit set exactly when \<open>d.neg\<close> is set;
  \<^item> whenever it reports overflow, the bits are exactly the signed infinity of the format
    (\<open>-Inf\<close> for a negative decimal), whichever exit raised the flag;
  \<^item> a decimal with no digits gives the signed zero with no flag, a decimal point beyond
    310 the signed infinity with the flag, a decimal point below -330 the signed zero;
  \<^item> on the general path the result is the rounding of what the two scaling loops leave,
    and both overflow exits of the rounding (the exponent too large after scaling, and the
    carry out of the mantissa at the largest exponent) give the signed infinity with the
    flag;
  \<^item> it does return: whenever each right shift of the engine brings a positive decimal
    point closer to zero and each left shift brings a value below one half closer to it
    (stated with two measures), both scaling loops end and \<open>floatBits\<close> yields a result.

  \<open>Shift\<close> is a parameter: all that is used of it is that it leaves \<open>neg\<close> alone, and, for
  the last item, that it makes progress.
\<close>

theorem floatBits_sign_bit:
  assumes fmt: "mantbits flt + expbits flt < 64"
    and sh: "\<And>n x. neg (Shift env n x) = neg x"
  shows "(floatBits env flt a = Some (b, ovf) \<longrightarrow> (bit b (mantbits flt + expbits flt) \<longleftrightarrow> neg a))
       \<and> (floatBits env flt a = Some (b, True) \<longrightarrow> b = infBits flt (neg a))
       \<and> (nd a = 0 \<longrightarrow> floatBits env flt a = Some (zeroBits flt (neg a), False))
       \<and> (nd a \<noteq> 0 \<and> dp a > 310 \<longrightarrow> floatBits env flt a = Some (infBits flt (neg a), True))
       \<and> (nd a \<noteq> 0 \<and> dp a < - 330 \<longrightarrow> floatBits env flt a = Some (zeroBits flt (neg a), False))
       \<and> (nd a \<noteq> 0 \<and> - 330 \<le> dp a \<and> dp a \<le> 310
            \<and> scale_down env a 0 = Some (a1, ex1) \<and> scale_up env a1 ex1 = Some (a2, ex2) \<longrightarrow>
              floatBits env flt a = Some (round_bits env flt a2 ex2)
            \<and> (bias flt + 2 ^ expbits flt \<le> ex2 \<longrightarrow>
                  floatBits env flt a = Some (infBits flt (neg a), True))
            \<and> (2 \<le> expbits flt \<and> ex2 = bias flt + 2 ^ expbits flt - 1
                \<and> RoundedInteger env (Shift env (int (1 + mantbits flt)) a2) = push_bit (mantbits flt) 2 \<longrightarrow>
                  floatBits env flt a = Some (infBits flt (neg a), True)))
       \<and> ((\<forall>x n. 0 < dp x \<and> 0 < n \<longrightarrow> mdown (Shift env (- n) x) < (mdown x :: nat))
            \<and> (\<forall>x n. (dp x < 0 \<or> dp x = 0 \<and> d x ! 0 < CHR ''5'') \<and> 0 < n
                  \<longrightarrow> mup (Shift env n x) < (mup x :: nat)) \<longrightarrow>
              (\<exists>b' ovf'. floatBits env flt a = Some (b', ovf')))"
proof -
  have general: "neg a2' = neg a \<and> floatBits env flt a = Some (round_bits env flt a2' ex2')"
    if "nd a \<noteq> 0" "- 330 \<le> dp a" "dp a \<le> 310"
      "scale_down env a 0 = Some (a1', ex1')" "scale_up env a1' ex1' = Some (a2', ex2')"
    for a1' ex1' a2' ex2'
    using that scale_down_neg_aux [OF that(4)] scale_up_neg_aux [OF that(5)] sh
    by (simp add: floatBits_def)
  have c1: "bit b (mantbits flt + expbits flt) \<longleftrightarrow> neg a" and c2: "ovf \<longrightarrow> b = infBits flt (neg a)"
    if r: "floatBits env flt a = Some (b, ovf)" for b ovf
  proof -
    show "bit b (mantbits flt + expbits flt) \<longleftrightarrow> neg a"
    proof (cases "nd a = 0 \<or> dp a > 310 \<or> dp a < - 330")
      case True
      with r fmt show ?thesis
        by (auto simp: floatBits_def overflow_exit_def assemble_sign_bit split: if_splits)
    next
      case False
      with r obtain a1' ex1' a2' ex2' where
        d: "scale_down env a 0 = Some (a1', ex1')" and u: "scale_up env a1' ex1' = Some (a2', ex2')"
        by (auto simp: floatBits_def split: option.splits)
      from general [OF _ _ _ d u] False r have "neg a2' = neg a" "(b, ovf) = round_bits env flt a2' ex2'"
        by auto
      then show ?thesis using round_bits_sign_bit [OF fmt sh, of a2' ex2']
        by (cases "round_bits env flt a2' ex2'") auto
    qed
    show "ovf \<longrightarrow> b = infBits flt (neg a)"
    proof (cases "nd a = 0 \<or> dp a > 310 \<or> dp a < - 330")
      case True
      with r show ?thesis
        by (auto simp: floatBits_def overflow_exit_inf split: if_splits)
    next
      case False
      with r obtain a1' ex1' a2' ex2' where
        d: "scale_down env a 0 = Some (a1', ex1')" and u: "scale_up env a1' ex1' = Some (a2', ex2')"
        by (auto simp: floatBits_def split: option.splits)
      from general [OF _ _ _ d u] False r have "neg a2' = neg a" "(b, ovf) = round_bits env flt a2' ex2'"
        by auto
      then show ?thesis using round_bits_flagged [OF sh, of flt a2' ex2']
        by (cases "round_bits env flt a2' ex2'") auto
    qed
  qed
  have c3: "nd a = 0 \<longrightarrow> floatBits env flt a = Some (zeroBits flt (neg a), False)"
    by (simp add: floatBits_def assemble_zero)
  have c4: "nd a \<noteq> 0 \<and> dp a > 310 \<longrightarrow> floatBits env flt a = Some (infBits flt (neg a), True)"
    by (simp add: floatBits_def overflow_exit_inf)
  have c5: "nd a \<noteq> 0 \<and> dp a < - 330 \<longrightarrow> floatBits env flt a = Some (zeroBits flt (neg a), False)"
    by (simp add: floatBits_def assemble_zero)
  have c6: "floatBits env flt a = Some (round_bits env flt a2 ex2)
            \<and> (bias flt + 2 ^ expbits flt \<le> ex2 \<longrightarrow>
                  floatBits env flt a = Some (infBits flt (neg a), True))
            \<and> (2 \<le> expbits flt \<and> ex2 = bias flt + 2 ^ expbits flt - 1
                \<and> RoundedInteger env (Shift env (int (1 + mantbits flt)) a2) = push_bit (mantbits flt) 2 \<longrightarrow>
                  floatBits env flt a = Some (infBits flt (neg a), True))"
    if h: "nd a \<noteq> 0 \<and> - 330 \<le> dp a \<and> dp a \<le> 310
            \<and> scale_down env a 0 = Some (a1, ex1) \<and> scale_up env a1 ex1 = Some (a2, ex2)"
  proof -
    from h general [of a1 ex1 a2 ex2]
    have g: "neg a2 = neg a" "floatBits env flt a = Some (round_bits env flt a2 ex2)" by auto
    show ?thesis
      using g round_bits_exponent_overflow [OF sh, of flt ex2 a2]
        round_bits_carry_overflow [OF sh, of flt ex2 a2]
      by auto
  qed
  have c7: "\<exists>b' ovf'. floatBits env flt a = Some (b', ovf')"
    if p: "(\<forall>x n. 0 < dp x \<and> 0 < n \<longrightarrow> mdown (Shift env (- n) x) < (mdown x :: nat))
            \<and> (\<forall>x n. (dp x < 0 \<or> dp x = 0 \<and> d x ! 0 < CHR ''5'') \<and> 0 < n
                  \<longrightarrow> mup (Shift env n x) < (mup x :: nat))"
  proof -
    from p have pd: "\<And>x n. 0 < dp x \<Longrightarrow> 0 < n \<Longrightarrow> mdown (Shift env (- n) x) < mdown x"
      and pu: "\<And>x n. dp x < 0 \<or> dp x = 0 \<and> d x ! 0 < CHR ''5'' \<Longrightarrow> 0 < n \<Longrightarrow> mup (Shift env n x) < mup x"
      by blast+
    from scale_down_returns [of mdown env a 0, OF pd] obtain a1' ex1' where
      d: "scale_down env a 0 = Some (a1', ex1')" by auto
    from scale_up_returns [of mup env a1' ex1', OF pu] obtain a2' ex2' where
      u: "scale_up env a1' ex1' = Some (a2', ex2')" by auto
    show ?thesis using d u
      by (cases "round_bits env flt a2' ex2'") (auto simp: floatBits_def overflow_exit_def)
  qed
  from c1 c2 c3 c4 c5 c6 c7 show ?thesis by blast
qed

theorem floatBits_sign_bit_witness:
  "mantbits float32info + expbits float32info < 64
   \<and> (\<forall>n x. neg (Shift step_env n x) = neg x)
   \<and> floatBits step_env float32info (one_digit 40 True) = Some (0xFF800000, True)
   \<and> bit (0xFF800000 :: 64 word) 31 \<and> neg (one_digit 40 True)
   \<and> infBits float32info True = 0xFF800000
   \<and> scale_down step_env (one_digit 40 True) 0 = Some (one_digit 0 True, 979)
   \<and> scale_up step_env (one_digit 0 True) 979 = Some (one_digit 1 True, 978)
   \<and> (\<exists>b ovf. floatBits step_env float64info (one_digit 40 True) = Some (b, ovf))
   \<and> floatBits sample_env float64info (one_digit 1 True) = Some (0xC010000000000001, False)
   \<and> bit (0xC010000000000001 :: 64 word) 63
   \<and> floatBits sample_env float64info (decimal_zero\<lparr>neg := True\<rparr>) = Some (0x8000000000000000, False)
   \<and> floatBits sample_env float64info (one_digit 400 True) = Some (Inf_neg, True)
   \<and> floatBits sample_env float32info (one_digit (- 400) True) = Some (0x80000000, False)"
proof -
  have fmt: "mantbits float64info + expbits float64info < 64"
    and fmt32: "mantbits float32info + expbits float32info < 64"
    by (simp_all add: float64info_def float32info_def)
  have n: "neg (one_digit 1 True)" "neg (one_digit 400 True)" "nd (one_digit 400 True) \<noteq> 0"
    "dp (one_digit 400 True) > 310" "nd (decimal_zero\<lparr>neg := True\<rparr>) = 0"
    "neg (one_digit 40 True)" "nd (one_digit 40 True) \<noteq> 0" "dp (one_digit 40 True) = 40"
    "nd (one_digit (- 400) True) \<noteq> 0" "dp (one_digit (- 400) True) < - 330" "neg (one_digit (- 400) True)"
    by (simp_all add: one_digit_def decimal_zero_def)
  have sd: "scale_down step_env (one_digit 40 True) 0 = Some (one_digit 0 True, 979)" by code_simp
  have su: "scale_up step_env (one_digit 0 True) 979 = Some (one_digit 1 True, 978)" by code_simp
  have big: "bias float32info + 2 ^ expbits float32info \<le> 978" by (simp add: float32info_def)
  note T32 = floatBits_sign_bit [OF fmt32 step_env_keeps_sign,
      where a = "one_digit 40 True" and ?a1.0 = "one_digit 0 True" and ?ex1.0 = 979
        and ?a2.0 = "one_digit 1 True" and ?ex2.0 = 978 and b = "0xFF800000" and ovf = True
        and mdown = "\<lambda>x. nat (dp x)" and mup = "\<lambda>x. nat (1 - dp x)"]
  have rng: "- 330 \<le> dp (one_digit 40 True)" "dp (one_digit 40 True) \<le> 310"
    by (simp_all add: one_digit_def)
  from T32 n(6,7) rng sd su big
  have "floatBits step_env float32info (one_digit 40 True)
      = Some (infBits float32info (neg (one_digit 40 True)), True)"
    by blast
  with n(6) have ov: "floatBits step_env float32info (one_digit 40 True) = Some (infBits float32info True, True)"
    by simp
  then have ov': "floatBits step_env float32info (one_digit 40 True) = Some (0xFF800000, True)"
    by (simp add: format_bit_patterns)
  from T32 ov' n(6) have b31: "bit (0xFF800000 :: 64 word) 31" by (simp add: float32info_def)
  from floatBits_sign_bit [OF fmt step_env_keeps_sign,
      where a = "one_digit 40 True" and mdown = "\<lambda>x. nat (dp x)" and mup = "\<lambda>x. nat (1 - dp x)"]
    step_env_progress
  have ret: "\<exists>b ovf. floatBits step_env float64info (one_digit 40 True) = Some (b, ovf)"
    by blast
  have run: "floatBits sample_env float64info (one_digit 1 True) = Some (0xC010000000000001, False)"
    by code_simp
  from floatBits_sign_bit [OF fmt sample_env_keeps_sign, of "one_digit 1 True" "0xC010000000000001" False]
    run n(1)
  have b63: "bit (0xC010000000000001 :: 64 word) 63" by (simp add: float64info_def)
  from floatBits_sign_bit [OF fmt sample_env_keeps_sign, of "decimal_zero\<lparr>neg := True\<rparr>"] n(5)
  have z: "floatBits sample_env float64info (decimal_zero\<lparr>neg := True\<rparr>) = Some (0x8000000000000000, False)"
    by (simp add: format_bit_patterns)
  from floatBits_sign_bit [OF fmt sample_env_keeps_sign, of "one_digit 400 True"] n
  have i: "floatBits sample_env float64info (one_digit 400 True) = Some (Inf_neg, True)"
    by (simp add: format_bit_patterns)
  from floatBits_sign_bit [OF fmt32 sample_env_keeps_sign, of "one_digit (- 400) True"] n
  have j: "floatBits sample_env float32info (one_digit (- 400) True) = Some (0x80000000, False)"
    by (simp add: format_bit_patterns)
  show ?thesis
    using fmt32 ov' b31 n(6) sd su ret run b63 z i j
    by (simp add: step_env_keeps_sign format_bit_patterns)
qed

text \<open>
  C7.  As stated (the two bounds take 32-bit-specific values when converting to float32)
  the claim fails: with the 32-bit format a decimal point at 310, or at 40, far beyond the
  float32 range, is not short-circuited but handed to the decimal engine (the result is
  the sample engine's mantissa, not an overflow), the overflow short-circuit starts at
  311, and the zero short-circuit at -331, exactly as for the 64-bit format.
\<close>

theorem float32_bounds_counterexample:
  "floatBits sample_env float32info (one_digit 310 False) = Some (1, False)
   \<and> floatBits sample_env float32info (one_digit 40 False) = Some (1, False)
   \<and> floatBits sample_env float32info (one_digit 311 False) = Some (0x7F800000, True)
   \<and> floatBits sample_env float32info (one_digit (- 330) False) = Some (1, False)
   \<and> floatBits sample_env float32info (one_digit (- 331) False) = Some (0, False)
   \<and> floatBits sample_env float64info (one_digit 310 False) = Some (0x4190000000000001, False)
   \<and> floatBits sample_env float64info (one_digit 311 False) = Some (Inf_pos, True)"
  unfolding Inf_pos_def by (intro conjI; code_simp)

text \<open>
  C7, as the code has it.  In \<open>floatBits\<close>, for a decimal with digits, a decimal-point
  position greater than 310 short-circuits to overflow (the signed infinity of the target
  format, with the overflow flag) and a position less than -330 short-circuits to the
  signed zero; the two bounds are the same constants for every target format, and every
  position from -330 to 310 goes through the scaling loops and the rounding.
\<close>

theorem floatBits_fixed_bounds:
  assumes "nd a \<noteq> 0"
  shows "(dp a > 310 \<longrightarrow> floatBits env flt a = Some (infBits flt (neg a), True))
       \<and> (dp a < - 330 \<longrightarrow> floatBits env flt a = Some (zeroBits flt (neg a), False))
       \<and> (- 330 \<le> dp a \<and> dp a \<le> 310 \<longrightarrow>
            floatBits env flt a =
              (case scale_down env a 0 of
                 None \<Rightarrow> None
               | Some (a1, ex1) \<Rightarrow>
                   (case scale_up env a1 ex1 of
                      None \<Rightarrow> None
                    | Some (a2, ex2) \<Rightarrow> Some (round_bits env flt a2 ex2))))"
  using assms by (simp add: floatBits_def overflow_exit_inf assemble_zero)

theorem floatBits_fixed_bounds_witness:
  "nd (one_digit 311 True) \<noteq> 0
   \<and> floatBits sample_env float32info (one_digit 311 True) = Some (0xFF800000, True)
   \<and> floatBits sample_env float64info (one_digit 311 True) = Some (Inf_neg, True)
   \<and> floatBits sample_env float32info (one_digit (- 331) True) = Some (0x80000000, False)
   \<and> floatBits sample_env float64info (one_digit (- 331) True) = Some (0x8000000000000000, False)"
proof -
  have n: "nd (one_digit 311 True) \<noteq> 0" "nd (one_digit (- 331) True) \<noteq> 0"
    "dp (one_digit 311 True) = 311" "dp (one_digit (- 331) True) = - 331"
    "neg (one_digit 311 True)" "neg (one_digit (- 331) True)"
    by (simp_all add: one_digit_def decimal_zero_def)
  show ?thesis
    using n floatBits_fixed_bounds [OF n(1), of sample_env float32info]
      floatBits_fixed_bounds [OF n(1), of sample_env float64info]
      floatBits_fixed_bounds [OF n(2), of sample_env float32info]
      floatBits_fixed_bounds [OF n(2), of sample_env float64info]
    by (simp add: format_bit_patterns)
qed

section \<open>The exponent cap\<close>

lemma set_decimal_unfold:
  "set_decimal a0 (c # cs) =
     set_finish (set_digits (stripSign (c # cs)) False False (a0\<lparr>neg := (c = CHR ''-''), trunc := False\<rparr>))"
proof -
  have sw: "\<And>x. a0\<lparr>trunc := False, neg := x\<rparr> = a0\<lparr>neg := x, trunc := False\<rparr>"
    by (cases a0) simp
  show ?thesis
  proof (cases "c = CHR ''+'' \<or> c = CHR ''-''")
    case True
    then show ?thesis unfolding set_decimal_def set_finish_def stripSign_def
      by (auto simp del: set_digits.simps simp add: sw)
  next
    case False
    then show ?thesis unfolding set_decimal_def set_finish_def stripSign_def
      by (auto simp del: set_digits.simps simp add: sw)
  qed
qed

lemma exp_digits_capped: "10000 \<le> e \<Longrightarrow> snd (exp_digits r e) = e"
  by (induction r arbitrary: e) auto

lemma digit_value: "isDigit c \<Longrightarrow> 0 \<le> int (of_char c) - 48 \<and> int (of_char c) - 48 \<le> 9"
  by (auto simp: isDigit_def less_eq_char_def)

lemma exp_digits_bounds:
  "0 \<le> e \<Longrightarrow> e < 100000 \<Longrightarrow> e \<le> snd (exp_digits r e) \<and> snd (exp_digits r e) < 100000"
proof (induction r arbitrary: e)
  case Nil
  then show ?case by simp
next
  case (Cons c r)
  show ?case
  proof (cases "isDigit c \<and> e < 10000")
    case True
    define e' where "e' = e * 10 + int (of_char c) - 48"
    from True digit_value [of c] Cons.prems have b: "0 \<le> e'" "e' < 100000" "e \<le> e'"
      by (auto simp: e'_def)
    from Cons.IH [OF b(1,2)] b(3) True show ?thesis by (simp add: e'_def)
  next
    case False
    with Cons show ?thesis by (auto simp: exp_digits_capped)
  qed
qed

lemma exp_digits_append:
  "list_all isDigit r \<Longrightarrow> snd (exp_digits (r @ r') e) = snd (exp_digits r' (snd (exp_digits r e)))"
  by (induction r arbitrary: e) auto


lemma not_digit_point: "\<not> isDigit CHR ''.''"
  by (simp add: isDigit_def)

lemma set_digits_step:
  assumes "isMantissaByte c"
    and "set_digits (c # cs) sd sg a = Some res"
  shows "\<exists>a1. set_digits cs (sd \<or> c = CHR ''.'') (sg \<or> isDigit c) a1 = Some res
    \<and> neg a1 = neg a \<and> length (d a1) = length (d a)
    \<and> (nd a1 = nd a \<or> nd a1 = nd a + 1)
    \<and> (dp a1 = dp a \<or> dp a1 = nd a \<or> (dp a1 = dp a - 1 \<and> nd a = 0))
    \<and> (0 \<le> nd a \<and> 0 < length (d a) \<longrightarrow>
           (nd a1 = 0 \<longleftrightarrow> nd a = 0 \<and> (c = CHR ''0'' \<or> c = CHR ''.'')))"
proof (cases "c = CHR ''.''")
  case True
  with assms(2) have "set_digits cs True sg (a\<lparr>dp := nd a\<rparr>) = Some res"
    by (simp split: if_splits)
  then show ?thesis using True
    by (intro exI [of _ "a\<lparr>dp := nd a\<rparr>"]) (simp add: not_digit_point)
next
  case False
  with assms(1) have dg: "isDigit c" by (simp add: isMantissaByte_def)
  consider (lead) "c = CHR ''0''" "nd a = 0"
    | (store) "\<not> (c = CHR ''0'' \<and> nd a = 0)" "nd a < int (length (d a))"
    | (drop) "\<not> (c = CHR ''0'' \<and> nd a = 0)" "\<not> nd a < int (length (d a))"
    by blast
  then show ?thesis
  proof cases
    case lead
    with assms(2) False dg have "set_digits cs sd True (a\<lparr>dp := dp a - 1\<rparr>) = Some res"
      by simp
    then show ?thesis using lead False dg
      by (intro exI [of _ "a\<lparr>dp := dp a - 1\<rparr>"]) simp
  next
    case store
    with assms(2) False dg
    have "set_digits cs sd True (a\<lparr>d := (d a)[nat (nd a) := c], nd := nd a + 1\<rparr>) = Some res"
      by simp
    then show ?thesis using store False dg
      by (intro exI [of _ "a\<lparr>d := (d a)[nat (nd a) := c], nd := nd a + 1\<rparr>"]) auto
  next
    case drop
    with assms(2) False dg
    have "set_digits cs sd True (if c \<noteq> CHR ''0'' then a\<lparr>trunc := True\<rparr> else a) = Some res"
      by (simp split: if_splits)
    then show ?thesis using drop False dg
      by (intro exI [of _ "if c \<noteq> CHR ''0'' then a\<lparr>trunc := True\<rparr> else a"]) auto
  qed
qed

lemma set_digits_invariant:
  assumes "set_digits cs sd sg a = Some (r, sd', sg', a')"
    and "- K \<le> dp a" "dp a \<le> K" "0 \<le> nd a" "nd a \<le> K" "0 < length (d a)"
  shows "neg a' = neg a \<and> nd a \<le> nd a'
       \<and> - (K + int (length (takeWhile isMantissaByte cs))) \<le> dp a'
       \<and> dp a' \<le> K + int (length (takeWhile isMantissaByte cs))
       \<and> nd a' \<le> K + int (length (takeWhile isMantissaByte cs))
       \<and> (nd a' = 0 \<longleftrightarrow>
            nd a = 0 \<and> list_all (\<lambda>c. c = CHR ''0'' \<or> c = CHR ''.'') (takeWhile isMantissaByte cs))"
  using assms
proof (induction cs arbitrary: sd sg a K)
  case Nil
  then show ?case by auto
next
  case (Cons c cs)
  show ?case
  proof (cases "isMantissaByte c")
    case False
    with Cons.prems show ?thesis by (auto simp: isMantissaByte_def)
  next
    case True
    from set_digits_step [OF True Cons.prems(1)] Cons.prems(4,6)
    obtain a1 where st: "set_digits cs (sd \<or> c = CHR ''.'') (sg \<or> isDigit c) a1 = Some (r, sd', sg', a')"
      and n: "neg a1 = neg a" and l: "length (d a1) = length (d a)"
      and nd1: "nd a1 = nd a \<or> nd a1 = nd a + 1"
      and dp1: "dp a1 = dp a \<or> dp a1 = nd a \<or> (dp a1 = dp a - 1 \<and> nd a = 0)"
      and z: "nd a1 = 0 \<longleftrightarrow> nd a = 0 \<and> (c = CHR ''0'' \<or> c = CHR ''.'')"
      by blast
    have b: "- (K + 1) \<le> dp a1" "dp a1 \<le> K + 1" "0 \<le> nd a1" "nd a1 \<le> K + 1" "0 < length (d a1)"
      using nd1 dp1 l Cons.prems(2-6) by auto
    from Cons.IH [OF st b] True n nd1 z show ?thesis by auto
  qed
qed


lemma scan_exponent_value:
  assumes "exponentGrammar r"
  shows "scan_exponent r =
           Some ([], case r of [] \<Rightarrow> 0
                     | c # r1 \<Rightarrow> snd (exp_digits (stripSign r1) 0) *
                                  (if r1 \<noteq> [] \<and> hd r1 = CHR ''-'' then - 1 else 1))"
proof (cases r)
  case Nil
  then show ?thesis by (simp add: scan_exponent_def)
next
  case (Cons c r1)
  with assms have m: "c = CHR ''e'' \<or> c = CHR ''E''" and ne: "stripSign r1 \<noteq> []"
    and dg: "list_all isDigit (stripSign r1)"
    by (simp_all add: exponentGrammar_def)
  from ne obtain x xs where x: "stripSign r1 = x # xs" by (cases "stripSign r1") auto
  from dg have "fst (exp_digits (stripSign r1) 0) = []"
    by (simp add: exp_digits_rest list_all_iff)
  then show ?thesis using dg unfolding Cons scan_exponent_marker [OF m]
    by (simp add: x del: exp_digits.simps)
qed

lemma set_decimal_result:
  assumes "scannerGrammar ba"
  shows "\<exists>a dp0. set_decimal decimal_zero ba = Some a \<and> neg a = inputNegative ba
           \<and> (nd a = 0 \<longleftrightarrow> mantissaZero ba)
           \<and> \<bar>dp0\<bar> \<le> int (length (mantissaPart ba))
           \<and> dp a = dp0 + (if exponentNegative ba then - accumulatedExponent ba
                            else accumulatedExponent ba)"
proof -
  from assms obtain c cs where ba: "ba = c # cs"
    by (cases ba) (auto simp: scannerGrammar_def stripSign_def)
  define a0 where "a0 = decimal_zero\<lparr>neg := (c = CHR ''-''), trunc := False\<rparr>"
  define L where "L = int (length (mantissaPart ba))"
  from assms have g: "list_ex isDigit (mantissaPart ba)" "points (mantissaPart ba) \<le> 1"
    "exponentGrammar (exponentPart ba)"
    by (simp_all add: scannerGrammar_def mantissaPart_def exponentPart_def Let_def)
  have "set_digits (stripSign ba) False False a0 \<noteq> None"
    using g(2) by (simp add: set_digits_None mantissaPart_def)
  then obtain r sd sg a' where st: "set_digits (stripSign ba) False False a0 = Some (r, sd, sg, a')"
    by (cases "set_digits (stripSign ba) False False a0") auto
  from set_digits_Some [OF st] g(1) have r: "r = exponentPart ba" and sg: "sg"
    by (simp_all add: exponentPart_def mantissaPart_def)
  have init: "- 0 \<le> dp a0" "dp a0 \<le> 0" "0 \<le> nd a0" "nd a0 \<le> 0" "0 < length (d a0)"
    by (simp_all add: a0_def decimal_zero_def)
  from set_digits_invariant [OF st init]
  have inv: "neg a' = (c = CHR ''-'')" "0 \<le> nd a'" "- L \<le> dp a'" "dp a' \<le> L" "nd a' \<le> L"
    "nd a' = 0 \<longleftrightarrow> mantissaZero ba"
    by (simp_all add: a0_def decimal_zero_def L_def mantissaPart_def mantissaZero_def)
  define a1 where "a1 = (if \<not> sd then a'\<lparr>dp := nd a'\<rparr> else a')"
  have a1: "neg a1 = (c = CHR ''-'')" "nd a1 = nd a'" "\<bar>dp a1\<bar> \<le> L"
    using inv by (auto simp: a1_def)
  define e where "e = (if exponentNegative ba then - accumulatedExponent ba else accumulatedExponent ba)"
  have "scan_exponent r = Some ([], e)"
    unfolding r scan_exponent_value [OF g(3)] e_def exponentNegative_def accumulatedExponent_def
    by (auto split: list.splits)
  then have "set_decimal decimal_zero ba = Some (a1\<lparr>dp := dp a1 + e\<rparr>)"
    unfolding ba set_decimal_unfold using st sg
    by (simp add: ba a0_def set_finish_def a1_def Let_def)
  then show ?thesis
    using a1 inv(6)
    by (intro exI [of _ "a1\<lparr>dp := dp a1 + e\<rparr>"] exI [of _ "dp a1"])
       (simp add: e_def L_def inputNegative_def ba)
qed

lemma digit_code: "isDigit c \<Longrightarrow> of_char c - (48::nat) \<le> 9 \<and> (c \<noteq> CHR ''0'' \<longrightarrow> 1 \<le> of_char c - (48::nat))"
proof -
  assume a: "isDigit c"
  then have "48 \<le> (of_char c :: nat)" "(of_char c :: nat) \<le> 57"
    by (simp_all add: isDigit_def less_eq_char_def)
  moreover have "c \<noteq> CHR ''0'' \<Longrightarrow> (of_char c :: nat) \<noteq> 48"
    using char_eq_code [of c "CHR ''0''"] by simp
  ultimately show ?thesis by auto
qed

lemma mant_inv_store:
  assumes "mant_inv n k m" "k < 19" "0 \<le> n" "dg \<le> 9" "n = 0 \<longrightarrow> 1 \<le> dg"
  shows "mant_inv (n + 1) (k + 1) (m * 10 + word_of_nat dg)"
proof -
  from assms have k: "0 \<le> k" "nat k \<le> 18" and u: "unat m < 10 ^ nat k"
    by (auto simp: mant_inv_def)
  have "(10::nat) ^ nat k \<le> 10 ^ 18" using k by (intro power_increasing) auto
  with u have b: "unat m * 10 + dg < 10 ^ 19" using assms(4) by simp
  then have lt: "unat m * 10 + dg < 2 ^ 64" by simp
  have val: "unat (m * 10 + word_of_nat dg) = unat m * 10 + dg"
    using lt assms(4) by (simp add: unat_word_ariths unat_of_nat)
  have up: "unat m * 10 + dg < 10 ^ nat (k + 1)"
  proof -
    have "nat (k + 1) = Suc (nat k)" using k by simp
    moreover have "unat m * 10 + dg < 10 * 10 ^ nat k" using u assms(4) by simp
    ultimately show ?thesis by simp
  qed
  have nz: "m * 10 + word_of_nat dg \<noteq> 0"
  proof
    assume "m * 10 + word_of_nat dg = 0"
    then have "unat (m * 10 + word_of_nat dg) = 0" by simp
    with val have z: "unat m = 0" "dg = 0" by auto
    then have "m = 0" by (simp add: unat_eq_zero)
    with assms(1,3,5) z show False by (auto simp: mant_inv_def)
  qed
  show ?thesis using k val up nz assms(3) by (auto simp: mant_inv_def)
qed


lemma readFloat_digits_step:
  assumes "isMantissaByte c"
    and "readFloat_digits (c # cs) sd sg n k p m tr = Some res"
    and "0 \<le> n" "mant_inv n k m"
  shows "\<exists>n1 k1 p1 m1 tr1.
      readFloat_digits cs (sd \<or> c = CHR ''.'') (sg \<or> isDigit c) n1 k1 p1 m1 tr1 = Some res
    \<and> (n1 = n \<or> n1 = n + 1)
    \<and> (p1 = p \<or> p1 = n \<or> (p1 = p - 1 \<and> n = 0))
    \<and> (n1 = 0 \<longleftrightarrow> n = 0 \<and> (c = CHR ''0'' \<or> c = CHR ''.''))
    \<and> mant_inv n1 k1 m1"
proof (cases "c = CHR ''.''")
  case True
  with assms(2) have "readFloat_digits cs True sg n k n m tr = Some res"
    by (simp split: if_splits)
  then show ?thesis using True assms(4)
    by (intro exI [of _ n] exI [of _ k] exI [of _ m] exI [of _ tr]) (simp add: not_digit_point)
next
  case False
  with assms(1) have dg: "isDigit c" by (simp add: isMantissaByte_def)
  consider (lead) "c = CHR ''0''" "n = 0"
    | (store) "\<not> (c = CHR ''0'' \<and> n = 0)" "k < 19"
    | (drop) "\<not> (c = CHR ''0'' \<and> n = 0)" "\<not> k < 19"
    by blast
  then show ?thesis
  proof cases
    case lead
    with assms(2) False dg have "readFloat_digits cs sd True n k (p - 1) m tr = Some res"
      by simp
    then show ?thesis using lead False dg assms(4)
      by (intro exI [of _ n] exI [of _ k] exI [of _ "p - 1"] exI [of _ m] exI [of _ tr]) simp
  next
    case store
    with assms(2) False dg
    have "readFloat_digits cs sd True (n + 1) (k + 1) p (m * 10 + word_of_nat (of_char c - 48)) tr = Some res"
      by simp
    moreover have "mant_inv (n + 1) (k + 1) (m * 10 + word_of_nat (of_char c - 48))"
      using mant_inv_store [OF assms(4) store(2) assms(3), of "of_char c - 48"] digit_code [OF dg] store(1)
      by auto
    ultimately show ?thesis using store False dg assms(3)
      by (intro exI [of _ "n + 1"] exI [of _ "k + 1"] exI [of _ p]
          exI [of _ "m * 10 + word_of_nat (of_char c - 48)"] exI [of _ tr]) auto
  next
    case drop
    with assms(2) False dg
    have "readFloat_digits cs sd True (n + 1) k p m (tr \<or> c \<noteq> CHR ''0'') = Some res"
      by (auto split: if_splits)
    moreover have "0 < n" using drop assms(3,4) by (auto simp: mant_inv_def)
    ultimately show ?thesis using drop False dg assms(3,4)
      by (intro exI [of _ "n + 1"] exI [of _ k] exI [of _ p] exI [of _ m]
          exI [of _ "tr \<or> c \<noteq> CHR ''0''"]) (auto simp: mant_inv_def)
  qed
qed

lemma readFloat_digits_invariant:
  assumes "readFloat_digits cs sd sg n k p m tr = Some (r, sd', sg', n', k', p', m', tr')"
    and "- K \<le> p" "p \<le> K" "0 \<le> n" "n \<le> K" "mant_inv n k m"
  shows "n \<le> n'
       \<and> - (K + int (length (takeWhile isMantissaByte cs))) \<le> p'
       \<and> p' \<le> K + int (length (takeWhile isMantissaByte cs))
       \<and> n' \<le> K + int (length (takeWhile isMantissaByte cs))
       \<and> (n' = 0 \<longleftrightarrow>
            n = 0 \<and> list_all (\<lambda>c. c = CHR ''0'' \<or> c = CHR ''.'') (takeWhile isMantissaByte cs))
       \<and> mant_inv n' k' m'"
  using assms
proof (induction cs arbitrary: sd sg n k p m tr K)
  case Nil
  then show ?case by auto
next
  case (Cons c cs)
  show ?case
  proof (cases "isMantissaByte c")
    case False
    with Cons.prems show ?thesis by (auto simp: isMantissaByte_def)
  next
    case True
    from readFloat_digits_step [OF True Cons.prems(1) Cons.prems(4) Cons.prems(6)]
    obtain n1 k1 p1 m1 tr1 where
      st: "readFloat_digits cs (sd \<or> c = CHR ''.'') (sg \<or> isDigit c) n1 k1 p1 m1 tr1
             = Some (r, sd', sg', n', k', p', m', tr')"
      and nd1: "n1 = n \<or> n1 = n + 1"
      and dp1: "p1 = p \<or> p1 = n \<or> (p1 = p - 1 \<and> n = 0)"
      and z: "n1 = 0 \<longleftrightarrow> n = 0 \<and> (c = CHR ''0'' \<or> c = CHR ''.'')"
      and mi: "mant_inv n1 k1 m1"
      by blast
    have b: "- (K + 1) \<le> p1" "p1 \<le> K + 1" "0 \<le> n1" "n1 \<le> K + 1"
      using nd1 dp1 Cons.prems(2-5) by auto
    from Cons.IH [OF st b mi] True nd1 z show ?thesis by auto
  qed
qed


lemma readFloat_unfold:
  "readFloat (c # cs) =
     readFloat_finish (c = CHR ''-'') (readFloat_digits (stripSign (c # cs)) False False 0 0 0 0 False)"
proof -
  consider (plus) "c = CHR ''+''" | (minus) "c = CHR ''-''" | (none) "c \<noteq> CHR ''+''" "c \<noteq> CHR ''-''"
    by blast
  then show ?thesis
  proof cases
    case plus
    have e: "(CHR ''+'' = CHR ''-'') = False" by simp
    show ?thesis unfolding plus e readFloat_def readFloat_finish_def stripSign_def
      by (simp del: readFloat_digits.simps)
  next
    case minus
    have e: "(CHR ''-'' = CHR ''-'') = True" by simp
    show ?thesis unfolding minus e readFloat_def readFloat_finish_def stripSign_def
      by (simp del: readFloat_digits.simps)
  next
    case none
    then have e: "(c = CHR ''-'') = False" by simp
    show ?thesis unfolding e readFloat_def readFloat_finish_def stripSign_def using none
      by (simp del: readFloat_digits.simps)
  qed
qed

lemma readFloat_result:
  assumes "scannerGrammar ba"
  shows "\<exists>m ex tr dp0 k. readFloat ba = Some (m, ex, inputNegative ba, tr)
           \<and> (m = 0 \<longleftrightarrow> mantissaZero ba)
           \<and> 0 \<le> k \<and> k \<le> 19
           \<and> \<bar>dp0\<bar> \<le> int (length (mantissaPart ba))
           \<and> ex = (if m \<noteq> 0
                    then dp0 + (if exponentNegative ba then - accumulatedExponent ba
                                else accumulatedExponent ba) - k
                    else 0)"
proof -
  from assms obtain c cs where ba: "ba = c # cs"
    by (cases ba) (auto simp: scannerGrammar_def stripSign_def)
  define L where "L = int (length (mantissaPart ba))"
  from assms have g: "list_ex isDigit (mantissaPart ba)" "points (mantissaPart ba) \<le> 1"
    "exponentGrammar (exponentPart ba)"
    by (simp_all add: scannerGrammar_def mantissaPart_def exponentPart_def Let_def)
  have "readFloat_digits (stripSign ba) False False 0 0 0 0 False \<noteq> None"
    using g(2) by (simp add: readFloat_digits_None mantissaPart_def)
  then obtain r sd sg n k p m tr where
    st: "readFloat_digits (stripSign ba) False False 0 0 0 0 False = Some (r, sd, sg, n, k, p, m, tr)"
    by (cases "readFloat_digits (stripSign ba) False False 0 0 0 0 False") auto
  from readFloat_digits_Some [OF st] g(1) have r: "r = exponentPart ba" and sg: "sg"
    by (simp_all add: exponentPart_def mantissaPart_def)
  have init: "- 0 \<le> (0::int)" "(0::int) \<le> 0" "mant_inv 0 0 0"
    by (simp_all add: mant_inv_def)
  from readFloat_digits_invariant [OF st init(1,2,2,2,3)]
  have inv: "0 \<le> n" "- L \<le> p" "p \<le> L" "n \<le> L" "n = 0 \<longleftrightarrow> mantissaZero ba" "mant_inv n k m"
    by (simp_all add: L_def mantissaPart_def mantissaZero_def)
  from inv(1,6) have mz: "m = 0 \<longleftrightarrow> n = 0" and k: "0 \<le> k" "k \<le> 19"
    by (auto simp: mant_inv_def)
  define p1 where "p1 = (if \<not> sd then n else p)"
  have p1: "\<bar>p1\<bar> \<le> L" using inv by (auto simp: p1_def)
  define e where "e = (if exponentNegative ba then - accumulatedExponent ba else accumulatedExponent ba)"
  have "scan_exponent r = Some ([], e)"
    unfolding r scan_exponent_value [OF g(3)] e_def exponentNegative_def accumulatedExponent_def
    by (auto split: list.splits)
  then have "readFloat ba = Some (m, (if m \<noteq> 0 then p1 + e - k else 0), c = CHR ''-'', tr)"
    unfolding ba readFloat_unfold using st sg
    by (simp add: ba readFloat_finish_def p1_def Let_def)
  then show ?thesis
    using p1 k mz inv(5)
    by (intro exI [of _ m] exI [of _ "if m \<noteq> 0 then p1 + e - k else 0"] exI [of _ tr]
        exI [of _ p1] exI [of _ k])
       (simp add: e_def L_def inputNegative_def ba)
qed

lemma special_first:
  assumes "special ba \<noteq> None"
  shows "\<exists>c cs. stripSign ba = c # cs \<and> c \<in> {CHR ''i'', CHR ''I'', CHR ''n'', CHR ''N''}"
proof -
  from assms have "matchesIgnoreCase ba ''inf'' \<or> matchesIgnoreCase ba ''+inf'' \<or> matchesIgnoreCase ba ''infinity''
          \<or> matchesIgnoreCase ba ''+infinity'' \<or> matchesIgnoreCase ba ''-inf'' \<or> matchesIgnoreCase ba ''-infinity''
          \<or> matchesIgnoreCase ba ''nan''"
    by (simp add: special_char split: if_splits) blast+
  then show ?thesis
    by (elim disjE)
       (auto simp: matchesIgnoreCase_def map_eq_Cons_conv lowerByte_i lowerByte_n lowerByte_plus
          lowerByte_minus stripSign_def)
qed

lemma grammar_not_special: "scannerGrammar ba \<Longrightarrow> special ba = None"
proof (rule ccontr)
  assume g: "scannerGrammar ba" and "special ba \<noteq> None"
  from special_first [OF this(2)] obtain c cs where
    s: "stripSign ba = c # cs" and c: "c \<in> {CHR ''i'', CHR ''I'', CHR ''n'', CHR ''N''}"
    by blast
  from c have "\<not> isMantissaByte c" using letter_not_numeric [of c] by (simp add: isMantissaByte_def)
  with s g show False by (simp add: scannerGrammar_def)
qed


lemma accumulatedExponent_bounds: "0 \<le> accumulatedExponent ba \<and> accumulatedExponent ba < 100000"
  using exp_digits_bounds [of 0] by (auto simp: accumulatedExponent_def split: list.splits)

lemma stripSign_append: "s \<noteq> [] \<Longrightarrow> stripSign (s @ t) = stripSign s @ t"
  by (cases s) (auto simp: stripSign_def)

lemma accumulatedExponent_more_digits:
  assumes g: "scannerGrammar ba" and cap: "10000 \<le> accumulatedExponent ba" and ds: "list_all isDigit ds"
  shows "accumulatedExponent (ba @ ds) = accumulatedExponent ba"
proof -
  from cap obtain c r1 where e: "exponentPart ba = c # r1"
    by (cases "exponentPart ba") (auto simp: accumulatedExponent_def)
  with g have r1: "stripSign r1 \<noteq> []" "list_all isDigit (stripSign r1)"
    by (simp_all add: scannerGrammar_def exponentPart_def exponentGrammar_def Let_def)
  then have r1n: "r1 \<noteq> []" by (auto simp: stripSign_def)
  from e have "dropWhile isMantissaByte (stripSign ba) \<noteq> []" by (simp add: exponentPart_def)
  then have nm: "\<exists>x\<in>set (stripSign ba). \<not> isMantissaByte x" by simp
  then have "stripSign ba \<noteq> []" by auto
  then have "ba \<noteq> []" by (auto simp: stripSign_def)
  note ne = this nm
  from nm obtain x where "x \<in> set (stripSign ba)" "\<not> isMantissaByte x" by blast
  then have "dropWhile isMantissaByte (stripSign ba @ ds) = dropWhile isMantissaByte (stripSign ba) @ ds"
    by (rule dropWhile_append1)
  then have "exponentPart (ba @ ds) = exponentPart ba @ ds"
    using ne(1) by (simp add: exponentPart_def stripSign_append)
  then have "accumulatedExponent (ba @ ds) = snd (exp_digits (stripSign r1 @ ds) 0)"
    by (simp add: accumulatedExponent_def e stripSign_append r1n)
  also have "\<dots> = snd (exp_digits ds (snd (exp_digits (stripSign r1) 0)))"
    by (rule exp_digits_append [OF r1(2)])
  also have "\<dots> = snd (exp_digits (stripSign r1) 0)"
    using cap by (intro exp_digits_capped) (simp add: accumulatedExponent_def e)
  finally show ?thesis by (simp add: accumulatedExponent_def e)
qed

lemma exact64_declines:
  "m \<noteq> 0 \<Longrightarrow> ex > 37 \<or> ex < - 22 \<Longrightarrow> batof64exact env m ex ng = None"
  by (auto simp: batof64exact_def Let_def)

lemma exact32_declines:
  "m \<noteq> 0 \<Longrightarrow> ex > 17 \<or> ex < - 10 \<Longrightarrow> batof32exact env m ex ng = None"
  by (auto simp: batof32exact_def Let_def)

lemma exact64_zero: "batof64exact env 0 0 ng = Some (zeroBits float64info ng)"
  by (simp add: batof64exact_def float64_of_uint64_def neg64_def zeroBits_def float64info_def)

lemma exact32_zero: "batof32exact env 0 0 ng = Some (ucast (zeroBits float32info ng))"
  by (simp add: batof32exact_def float32_of_uint64_def neg32_def zeroBits_def float32info_def)


lemma floatBits_out_of_range:
  assumes "nd a = 0 \<or> dp a < - 330 \<or> dp a > 310"
  shows "floatBits env flt a =
           Some (if nd a = 0 \<or> dp a < - 330 then (zeroBits flt (neg a), False)
                 else (infBits flt (neg a), True))"
  using assms by (auto simp: floatBits_def overflow_exit_inf assemble_zero)

lemma readFloat_digits_zeros:
  "readFloat_digits (replicate j (CHR ''0'') @ cs) sd sg 0 k p m tr =
     readFloat_digits cs sd (sg \<or> 0 < j) 0 k (p - int j) m tr"
  by (induction j arbitrary: sg p) (simp_all add: isDigit_def diff_diff_eq)

lemma set_digits_zeros:
  "nd a = 0 \<Longrightarrow> set_digits (replicate j (CHR ''0'') @ cs) sd sg a =
     set_digits cs sd (sg \<or> 0 < j) (a\<lparr>dp := dp a - int j\<rparr>)"
  by (induction j arbitrary: sg a) (simp_all add: isDigit_def diff_diff_eq)

lemma dropWhile_zeros:
  "dropWhile isMantissaByte (replicate j (CHR ''0'') @ cs) = dropWhile isMantissaByte cs"
  by (induction j) (simp_all add: isMantissaByte_def isDigit_def)

lemma takeWhile_zeros:
  "takeWhile isMantissaByte (replicate j (CHR ''0'') @ cs) = replicate j (CHR ''0'') @ takeWhile isMantissaByte cs"
  by (induction j) (simp_all add: isMantissaByte_def isDigit_def)

text \<open>
  C8.  The cap on the accumulated exponent changes a parse result, against the package's
  own documentation.  The input \<open>0.\<close>, 9999 zeros, \<open>1e100000\<close> is well formed and denotes
  \<open>10^90000\<close>, far above the largest finite value of either format: the comment of
  \<open>ParseFloat\<close> promises an infinity with \<open>ErrRange\<close> for it, and the comment in \<open>set\<close> says
  that, for a very large exponent, not moving the decimal point by the exact amount does
  not matter.  The exponent loop stops accumulating at 10000, so both scanners see the
  value 1: \<open>readFloat\<close> returns the mantissa 1 with decimal exponent 0, \<open>set\<close> leaves the
  single digit 1 with the decimal point at 1, and with the fast tiers on \<open>Batof64\<close>,
  \<open>Batof32\<close> and \<open>ParseFloat\<close> return 1.0 with no error, whatever the decimal engine, the
  extended tier and the float operations are.
\<close>

theorem exponent_cap_changes_result:
  "specGrammar (''0.'' @ replicate 9999 (CHR ''0'') @ ''1e100000'')
   \<and> accumulatedExponent (''0.'' @ replicate 9999 (CHR ''0'') @ ''1e100000'') = 10000
   \<and> readFloat (''0.'' @ replicate 9999 (CHR ''0'') @ ''1e100000'') = Some (1, 0, False, False)
   \<and> (\<exists>a. set_decimal decimal_zero (''0.'' @ replicate 9999 (CHR ''0'') @ ''1e100000'') = Some a
          \<and> nd a = 1 \<and> d a ! 0 = CHR ''1'' \<and> dp a = 1 \<and> \<not> neg a \<and> \<not> trunc a)
   \<and> Batof64 env True (''0.'' @ replicate 9999 (CHR ''0'') @ ''1e100000'')
        = Some (0x3FF0000000000000, None)
   \<and> Batof32 env True (''0.'' @ replicate 9999 (CHR ''0'') @ ''1e100000'')
        = Some (0x3F800000, None)
   \<and> ParseFloat env True (''0.'' @ replicate 9999 (CHR ''0'') @ ''1e100000'') 64
        = Some (0x3FF0000000000000, None)"
proof -
  define ba where "ba = ''0.'' @ replicate 9999 (CHR ''0'') @ ''1e100000''"
  have ss: "stripSign ba = ba" by (simp add: ba_def stripSign_def)
  have ep: "exponentPart ba = ''e100000''"
    by (simp add: exponentPart_def ss) (simp add: ba_def isMantissaByte_def isDigit_def dropWhile_zeros)
  have mp: "mantissaPart ba = ''0.'' @ replicate 9999 (CHR ''0'') @ ''1''"
    by (simp add: mantissaPart_def ss) (simp add: ba_def isMantissaByte_def isDigit_def takeWhile_zeros)
  have ae: "accumulatedExponent ba = 10000"
    by (simp add: accumulatedExponent_def ep stripSign_def isDigit_def)
  have g: "scannerGrammar ba"
    using ep mp unfolding scannerGrammar_def Let_def mantissaPart_def exponentPart_def
    by (simp add: points_def exponentGrammar_def stripSign_def isDigit_def)
  have dz: "dropWhile isDigit (replicate j (CHR ''0'') @ cs) = dropWhile isDigit cs" for j cs
    by (induction j) (simp_all add: isDigit_def)
  have sg: "specGrammar ba"
    unfolding specGrammar_def Let_def ss
    by (simp add: ba_def isDigit_def dz exponentGrammar_def stripSign_def takeWhile_eq_Nil_iff hd_append)
  have se: "scan_exponent ''e100000'' = Some ([], 10000)"
    by (simp add: scan_exponent_def isDigit_def)
  have rd: "readFloat_digits ba False False 0 0 0 0 False = Some (''e100000'', True, True, 1, 1, - 9999, 1, False)"
    by (simp add: ba_def isDigit_def readFloat_digits_zeros)
  have rf: "readFloat ba = Some (1, 0, False, False)"
    unfolding readFloat_def using rd se by (simp add: ba_def del: readFloat_digits.simps)
  have sp: "special ba = None" by (rule grammar_not_special [OF g])
  have e64: "batof64exact env 1 0 False = Some 0x3FF0000000000000"
    by (simp add: batof64exact_def float64info_def float64_of_uint64_def mask_eq_exp_minus_1)
  have e32: "batof32exact env 1 0 False = Some 0x3F800000"
    by (simp add: batof32exact_def float32info_def float32_of_uint64_def mask_eq_exp_minus_1)
  have b64: "Batof64 env True ba = Some (0x3FF0000000000000, None)"
    by (simp add: Batof64_def sp rf e64)
  have b32: "Batof32 env True ba = Some (0x3F800000, None)"
    by (simp add: Batof32_def sp rf e32)
  have pf: "ParseFloat env True ba 64 = Some (0x3FF0000000000000, None)"
    by (simp add: ParseFloat_def b64)
  define a0 where "a0 = decimal_zero\<lparr>neg := False, trunc := False\<rparr>"
  have a0: "nd a0 = 0" "dp a0 = 0" by (simp_all add: a0_def decimal_zero_def)
  define a1 where "a1 = a0\<lparr>dp := - 9999, d := (d a0)[0 := CHR ''1''], nd := 1\<rparr>"
  have "set_digits ba False False a0
          = set_digits (replicate 9999 (CHR ''0'') @ ''1e100000'') True True (a0\<lparr>dp := 0\<rparr>)"
    using a0 by (simp add: ba_def isDigit_def)
  also have "\<dots> = set_digits ''1e100000'' True True (a0\<lparr>dp := - 9999\<rparr>)"
    using a0 by (subst set_digits_zeros) simp_all
  also have "\<dots> = Some (''e100000'', True, True, a1)"
    using a0 by (simp add: isDigit_def a1_def a0_def decimal_zero_def)
  finally have sd: "set_digits ba False False a0 = Some (''e100000'', True, True, a1)" .
  have "set_decimal decimal_zero ba = set_finish (set_digits ba False False a0)"
    using set_decimal_unfold [of decimal_zero "CHR ''0''" "tl ba"] ss
    by (simp add: ba_def a0_def)
  then have "set_decimal decimal_zero ba = Some (a1\<lparr>dp := 1\<rparr>)"
    by (simp add: sd se set_finish_def a1_def)
  then have st: "\<exists>a. set_decimal decimal_zero ba = Some a
          \<and> nd a = 1 \<and> d a ! 0 = CHR ''1'' \<and> dp a = 1 \<and> \<not> neg a \<and> \<not> trunc a"
    by (intro exI [of _ "a1\<lparr>dp := 1\<rparr>"]) (simp add: a1_def a0_def decimal_zero_def)
  show ?thesis using sg ae rf st b64 b32 pf unfolding ba_def by blast
qed

text \<open>
  Where the cap is harmless.  The exponent loop is the same in both scan modes; the value
  it accumulates stays below 100000 and, once it has reached 10000, no further exponent
  digit changes it.  For a well-formed input whose accumulated exponent has reached 10000
  and whose mantissa part is at most 9669 bytes long, each entry point returns a signed
  zero with no error when every mantissa digit is zero or the exponent is negative, and
  the signed infinity with a Range error otherwise: always on the multiprecision path,
  and with \<open>optimize\<close> on whenever the extended-precision tier declines what \<open>readFloat\<close>
  scanned from this input for the format of the entry point (the exact tier declines by
  itself unless the mantissa is zero).
\<close>

theorem exponent_cap_outcome:
  assumes g: "scannerGrammar ba"
    and len: "length (mantissaPart ba) \<le> 9669"
    and cap: "10000 \<le> accumulatedExponent ba"
  shows "accumulatedExponent ba < 100000
       \<and> (list_all isDigit ds \<longrightarrow> accumulatedExponent (ba @ ds) = accumulatedExponent ba)
       \<and> ((opt \<longrightarrow> (\<forall>m ex ng tr. readFloat ba = Some (m, ex, ng, tr)
                     \<longrightarrow> extFloat_tier env m ex ng tr float64info = None)) \<longrightarrow>
            Batof64 env opt ba =
              Some (if mantissaZero ba \<or> exponentNegative ba
                    then (zeroBits float64info (inputNegative ba), None)
                    else (infBits float64info (inputNegative ba), Some (rangeError fnParseFloat ba))))
       \<and> ((opt \<longrightarrow> (\<forall>m ex ng tr. readFloat ba = Some (m, ex, ng, tr)
                     \<longrightarrow> extFloat_tier env m ex ng tr float32info = None)) \<longrightarrow>
            Batof32 env opt ba =
              Some (if mantissaZero ba \<or> exponentNegative ba
                    then (ucast (zeroBits float32info (inputNegative ba)), None)
                    else (ucast (infBits float32info (inputNegative ba)), Some (rangeError fnParseFloat ba))))"
proof -
  define E where "E = (if exponentNegative ba then - accumulatedExponent ba else accumulatedExponent ba)"
  define Z where "Z \<longleftrightarrow> mantissaZero ba \<or> exponentNegative ba"
  have sp: "special ba = None" by (rule grammar_not_special [OF g])
  from set_decimal_result [OF g] obtain a dp0 where
    a: "set_decimal decimal_zero ba = Some a" "neg a = inputNegative ba" "nd a = 0 \<longleftrightarrow> mantissaZero ba"
    and dp0: "\<bar>dp0\<bar> \<le> int (length (mantissaPart ba))" "dp a = dp0 + E"
    unfolding E_def by blast
  from dp0 len cap have far: "exponentNegative ba \<longrightarrow> dp a < - 330" "\<not> exponentNegative ba \<longrightarrow> dp a > 310"
    by (auto simp: E_def)
  then have fb: "floatBits env flt a =
      Some (if Z then (zeroBits flt (inputNegative ba), False) else (infBits flt (inputNegative ba), True))" for flt
    using floatBits_out_of_range [of a env flt] a(2,3) by (auto simp: Z_def)
  from readFloat_result [OF g] obtain m ex tr dp1 k where
    rf: "readFloat ba = Some (m, ex, inputNegative ba, tr)" and mz: "m = 0 \<longleftrightarrow> mantissaZero ba"
    and k: "0 \<le> k" "k \<le> 19" and dp1: "\<bar>dp1\<bar> \<le> int (length (mantissaPart ba))"
    and ex: "ex = (if m \<noteq> 0 then dp1 + E - k else 0)"
    unfolding E_def by blast
  have exr: "m \<noteq> 0 \<longrightarrow> ex > 37 \<or> ex < - 22" "m \<noteq> 0 \<longrightarrow> ex > 17 \<or> ex < - 10"
    using ex dp1 k len cap by (auto simp: E_def)
  have e64: "batof64exact env m ex (inputNegative ba) =
               (if m = 0 then Some (zeroBits float64info (inputNegative ba)) else None)"
    using exr(1) ex by (auto simp: exact64_zero exact64_declines)
  have e32: "batof32exact env m ex (inputNegative ba) =
               (if m = 0 then Some (ucast (zeroBits float32info (inputNegative ba))) else None)"
    using exr(2) ex by (auto simp: exact32_zero exact32_declines)
  have mZ: "m = 0 \<longrightarrow> Z" using mz by (simp add: Z_def)
  have b64: "Batof64 env opt ba =
           Some (if Z then (zeroBits float64info (inputNegative ba), None)
                 else (infBits float64info (inputNegative ba), Some (rangeError fnParseFloat ba)))"
    if ext: "opt \<longrightarrow> (\<forall>m ex ng tr. readFloat ba = Some (m, ex, ng, tr)
                     \<longrightarrow> extFloat_tier env m ex ng tr float64info = None)"
  proof (cases opt)
    case False
    then show ?thesis by (simp add: Batof64_def sp a(1) fb)
  next
    case True
    with ext rf have x: "extFloat_tier env m ex (inputNegative ba) tr float64info = None" by blast
    show ?thesis using True mZ x by (auto simp add: Batof64_def sp rf e64 a(1) fb)
  qed
  have b32: "Batof32 env opt ba =
           Some (if Z then (ucast (zeroBits float32info (inputNegative ba)), None)
                 else (ucast (infBits float32info (inputNegative ba)), Some (rangeError fnParseFloat ba)))"
    if ext: "opt \<longrightarrow> (\<forall>m ex ng tr. readFloat ba = Some (m, ex, ng, tr)
                     \<longrightarrow> extFloat_tier env m ex ng tr float32info = None)"
  proof (cases opt)
    case False
    then show ?thesis by (simp add: Batof32_def sp a(1) fb)
  next
    case True
    with ext rf have x: "extFloat_tier env m ex (inputNegative ba) tr float32info = None" by blast
    show ?thesis using True mZ x by (auto simp add: Batof32_def sp rf e32 a(1) fb)
  qed
  show ?thesis
    using accumulatedExponent_bounds [of ba] accumulatedExponent_more_digits [OF g cap, of ds] b64 b32
    unfolding Z_def by blast
qed

theorem exponent_cap_outcome_witness:
  "scannerGrammar ''1e10000'' \<and> length (mantissaPart ''1e10000'') \<le> 9669
   \<and> accumulatedExponent ''1e10000'' = 10000
   \<and> accumulatedExponent ''1e1000077'' = 10000
   \<and> Batof64 sample_env True ''1e10000'' = Some (Inf_pos, Some (rangeError fnParseFloat ''1e10000''))
   \<and> Batof32 sample_env True ''1e10000'' = Some (0x7F800000, Some (rangeError fnParseFloat ''1e10000''))
   \<and> Batof64 sample_env False ''-2.5E-123456'' = Some (0x8000000000000000, None)
   \<and> Batof32 sample_env False ''-2.5E-123456'' = Some (0x80000000, None)"
proof -
  have g: "scannerGrammar ''1e10000''" "scannerGrammar ''-2.5E-123456''"
    by (simp_all add: scannerGrammar_def stripSign_def isMantissaByte_def isDigit_def points_def
        exponentGrammar_def)
  have l: "length (mantissaPart ''1e10000'') \<le> 9669" "length (mantissaPart ''-2.5E-123456'') \<le> 9669"
    by (simp_all add: mantissaPart_def stripSign_def isMantissaByte_def isDigit_def)
  have c: "accumulatedExponent ''1e10000'' = 10000" "accumulatedExponent ''-2.5E-123456'' = 12345"
    by (simp_all add: accumulatedExponent_def exponentPart_def stripSign_def isMantissaByte_def isDigit_def)
  have c': "10000 \<le> accumulatedExponent ''1e10000''" "10000 \<le> accumulatedExponent ''-2.5E-123456''"
    by (simp_all add: c)
  have x: "extFloat_tier sample_env m ex ng tr flt = None" for m ex ng tr flt
    by (simp add: sample_env_def)
  have d: "list_all isDigit ''77''" by (simp add: isDigit_def)
  have f: "\<not> mantissaZero ''1e10000''" "\<not> exponentNegative ''1e10000''" "\<not> inputNegative ''1e10000''"
    "exponentNegative ''-2.5E-123456''" "inputNegative ''-2.5E-123456''"
    by (simp_all add: mantissaZero_def mantissaPart_def exponentNegative_def exponentPart_def
        inputNegative_def stripSign_def isMantissaByte_def isDigit_def)
  from exponent_cap_outcome [where opt = True and ds = "''77''" and env = sample_env, OF g(1) l(1) c'(1)] x d f c
  have 1: "accumulatedExponent ''1e1000077'' = 10000"
    "Batof64 sample_env True ''1e10000'' = Some (Inf_pos, Some (rangeError fnParseFloat ''1e10000''))"
    "Batof32 sample_env True ''1e10000'' = Some (0x7F800000, Some (rangeError fnParseFloat ''1e10000''))"
    by (simp_all add: format_bit_patterns)
  from exponent_cap_outcome [where opt = False and env = sample_env, OF g(2) l(2) c'(2)] x f
  have 2: "Batof64 sample_env False ''-2.5E-123456'' = Some (0x8000000000000000, None)"
    "Batof32 sample_env False ''-2.5E-123456'' = Some (0x80000000, None)"
    by (simp_all add: format_bit_patterns)
  show ?thesis using g(1) l(1) c(1) 1 2 by blast
qed

section \<open>Integer parts longer than the digit array\<close>

text \<open>
  The two scanners treat a run of digits longer than the 800 digits a decimal can hold
  differently.  \<open>readFloat\<close> counts every digit of the run (\<open>nd\<close>) beside the digits it
  keeps (\<open>ndMant\<close>) and takes the decimal point from the count of all of them.  \<open>set\<close> has
  one counter, \<open>d.nd\<close>, which stops at the capacity of the array, and takes the decimal
  point from it, at the point and at the end of the digits alike.
\<close>

lemma set_digits_zeros_stored:
  assumes "0 < nd a" "nd a \<le> int (length (d a))"
  shows "\<exists>a'. set_digits (replicate j (CHR ''0'') @ cs) sd sg a = set_digits cs sd (sg \<or> 0 < j) a'
           \<and> nd a' = min (nd a + int j) (int (length (d a))) \<and> dp a' = dp a
           \<and> neg a' = neg a \<and> trunc a' = trunc a \<and> length (d a') = length (d a)"
  using assms
proof (induction j arbitrary: a sg)
  case 0
  then show ?case by (intro exI [of _ a]) simp
next
  case (Suc j)
  define a1 where "a1 = (if nd a < int (length (d a))
                         then a\<lparr>d := (d a)[nat (nd a) := CHR ''0''], nd := nd a + 1\<rparr> else a)"
  have st: "set_digits (replicate (Suc j) (CHR ''0'') @ cs) sd sg a
              = set_digits (replicate j (CHR ''0'') @ cs) sd True a1"
    using Suc.prems by (simp add: a1_def isDigit_def)
  have p: "0 < nd a1" "nd a1 \<le> int (length (d a1))" using Suc.prems by (auto simp: a1_def)
  from Suc.IH [OF p, of True] obtain a' where
    "set_digits (replicate j (CHR ''0'') @ cs) sd True a1 = set_digits cs sd True a'"
    "nd a' = min (nd a1 + int j) (int (length (d a1)))" "dp a' = dp a1"
    "neg a' = neg a1" "trunc a' = trunc a1" "length (d a') = length (d a1)"
    by auto
  then show ?case using st Suc.prems
    by (intro exI [of _ a']) (auto simp: a1_def)
qed

lemma readFloat_digits_zeros_counted:
  assumes "0 < n" "0 \<le> k" "k \<le> 19"
  shows "readFloat_digits (replicate j (CHR ''0'') @ cs) sd sg n k p m tr
           = readFloat_digits cs sd (sg \<or> 0 < j) (n + int j) (min (k + int j) 19) p
               (m * 10 ^ nat (min (k + int j) 19 - k)) tr"
  using assms
proof (induction j arbitrary: n k m sg)
  case 0
  then show ?case by simp
next
  case (Suc j)
  show ?case
  proof (cases "k < 19")
    case True
    have pw: "nat (min (k + (1 + int j)) 19 - k) = Suc (nat (min (k + (1 + int j)) 19 - (k + 1)))"
      using True Suc.prems by auto
    have "readFloat_digits (replicate (Suc j) (CHR ''0'') @ cs) sd sg n k p m tr
            = readFloat_digits (replicate j (CHR ''0'') @ cs) sd True (n + 1) (k + 1) p (m * 10) tr"
      using Suc.prems True by (simp add: isDigit_def)
    also have "\<dots> = readFloat_digits cs sd (True \<or> 0 < j) (n + 1 + int j) (min (k + 1 + int j) 19) p
               (m * 10 * 10 ^ nat (min (k + 1 + int j) 19 - (k + 1))) tr"
      using Suc.prems True by (intro Suc.IH) auto
    also have "\<dots> = readFloat_digits cs sd (sg \<or> 0 < Suc j) (n + int (Suc j)) (min (k + int (Suc j)) 19) p
               (m * 10 ^ nat (min (k + int (Suc j)) 19 - k)) tr"
      by (simp add: pw add.assoc mult.assoc)
    finally show ?thesis .
  next
    case False
    with Suc.prems have k: "k = 19" by simp
    have "readFloat_digits (replicate (Suc j) (CHR ''0'') @ cs) sd sg n k p m tr
            = readFloat_digits (replicate j (CHR ''0'') @ cs) sd True (n + 1) k p m tr"
      using Suc.prems k by (simp add: isDigit_def)
    also have "\<dots> = readFloat_digits cs sd (True \<or> 0 < j) (n + 1 + int j) (min (k + int j) 19) p
               (m * 10 ^ nat (min (k + int j) 19 - k)) tr"
      using Suc.prems by (intro Suc.IH) auto
    also have "\<dots> = readFloat_digits cs sd (sg \<or> 0 < Suc j) (n + int (Suc j)) (min (k + int (Suc j)) 19) p
               (m * 10 ^ nat (min (k + int (Suc j)) 19 - k)) tr"
      using k by (simp add: add.assoc)
    finally show ?thesis .
  qed
qed

lemma long_integer_scan:
  assumes "800 \<le> j" and se: "scan_exponent r = Some ([], e)" and r: "r \<noteq> []" "\<not> isMantissaByte (hd r)"
  shows "\<exists>a. set_decimal decimal_zero (CHR ''1'' # replicate j (CHR ''0'') @ r) = Some a
           \<and> nd a = 800 \<and> dp a = 800 + e \<and> neg a = False"
    and "readFloat (CHR ''1'' # replicate j (CHR ''0'') @ r)
           = Some (1000000000000000000, 1 + int j + e - 19, False, False)"
proof -
  from r obtain c r' where rr: "r = c # r'" and c: "c \<noteq> CHR ''.''" "\<not> isDigit c"
    by (cases r) (auto simp: isMantissaByte_def)
  define a1 where "a1 = decimal_zero\<lparr>neg := False, trunc := False,
      d := (d decimal_zero)[0 := CHR ''1''], nd := 1\<rparr>"
  have p: "0 < nd a1" "nd a1 \<le> int (length (d a1))" by (simp_all add: a1_def decimal_zero_def)
  from set_digits_zeros_stored [OF p, of j r False True] obtain a' where
    z: "set_digits (replicate j (CHR ''0'') @ r) False True a1 = set_digits r False (True \<or> 0 < j) a'"
    and a': "nd a' = min (nd a1 + int j) (int (length (d a1)))" "dp a' = dp a1" "neg a' = neg a1"
    by blast
  have nd': "nd a' = 800" using a'(1) assms(1) by (simp add: a1_def decimal_zero_def)
  have "set_digits (CHR ''1'' # replicate j (CHR ''0'') @ r) False False (decimal_zero\<lparr>neg := False, trunc := False\<rparr>)
          = set_digits (replicate j (CHR ''0'') @ r) False True a1"
    by (simp add: isDigit_def decimal_zero_def a1_def)
  also have "\<dots> = Some (r, False, True, a')"
    unfolding z using c by (simp add: rr)
  finally have sd: "set_digits (CHR ''1'' # replicate j (CHR ''0'') @ r) False False
      (decimal_zero\<lparr>neg := False, trunc := False\<rparr>) = Some (r, False, True, a')" .
  have "set_decimal decimal_zero (CHR ''1'' # replicate j (CHR ''0'') @ r) = Some (a'\<lparr>dp := nd a' + e\<rparr>)"
    unfolding set_decimal_def using sd se
    by (simp del: set_digits.simps replicate.simps add: Let_def)
  then show "\<exists>a. set_decimal decimal_zero (CHR ''1'' # replicate j (CHR ''0'') @ r) = Some a
           \<and> nd a = 800 \<and> dp a = 800 + e \<and> neg a = False"
    using nd' a'(3) by (intro exI [of _ "a'\<lparr>dp := nd a' + e\<rparr>"]) (simp add: a1_def)
  have "readFloat_digits (CHR ''1'' # replicate j (CHR ''0'') @ r) False False 0 0 0 0 False
          = readFloat_digits (replicate j (CHR ''0'') @ r) False True 1 1 0 1 False"
    by (simp add: isDigit_def)
  also have "\<dots> = readFloat_digits r False (True \<or> 0 < j) (1 + int j) (min (1 + int j) 19) 0
               (1 * 10 ^ nat (min (1 + int j) 19 - 1)) False"
    by (rule readFloat_digits_zeros_counted) simp_all
  also have "\<dots> = Some (r, False, True, 1 + int j, 19, 0, 1000000000000000000, False)"
    using c assms(1) by (simp add: rr)
  finally have rd: "readFloat_digits (CHR ''1'' # replicate j (CHR ''0'') @ r) False False 0 0 0 0 False
      = Some (r, False, True, 1 + int j, 19, 0, 1000000000000000000, False)" .
  show "readFloat (CHR ''1'' # replicate j (CHR ''0'') @ r)
           = Some (1000000000000000000, 1 + int j + e - 19, False, False)"
    unfolding readFloat_def using rd se
    by (simp del: readFloat_digits.simps replicate.simps add: Let_def)
qed


lemma exponent_scans:
  "scan_exponent ''e-1200'' = Some ([], - 1200)" "scan_exponent ''e-1600'' = Some ([], - 1600)"
  by (simp_all add: scan_exponent_def isDigit_def)

lemma special_digit_first:
  assumes "isDigit c"
  shows "special (c # cs) = None"
proof -
  from assms have "c \<noteq> CHR ''+''" "c \<noteq> CHR ''i''" "c \<noteq> CHR ''I''" "c \<noteq> CHR ''-''"
    "c \<noteq> CHR ''n''" "c \<noteq> CHR ''N''"
    by (auto simp: isDigit_def)
  then show ?thesis by (simp add: special_def)
qed

lemma Batof64_long_integer:
  assumes "800 \<le> j" and se: "scan_exponent r = Some ([], e)" and r: "r \<noteq> []" "\<not> isMantissaByte (hd r)"
    and far: "800 + e < - 330"
  shows "Batof64 env opt (CHR ''1'' # replicate j (CHR ''0'') @ r) =
           (if opt
            then (case extFloat_tier env 1000000000000000000 (1 + int j + e - 19) False False float64info of
                    None \<Rightarrow> Some (0, None)
                  | Some (bits, ovf) \<Rightarrow>
                      Some (bits, if ovf then Some (rangeError fnParseFloat (CHR ''1'' # replicate j (CHR ''0'') @ r))
                                  else None))
            else Some (0, None))"
proof -
  define ba where "ba = CHR ''1'' # replicate j (CHR ''0'') @ r"
  from long_integer_scan [OF assms(1-4)] obtain a where
    a: "set_decimal decimal_zero ba = Some a" "nd a = 800" "dp a = 800 + e" "neg a = False"
    and rf: "readFloat ba = Some (1000000000000000000, 1 + int j + e - 19, False, False)"
    unfolding ba_def by blast
  have sp: "special ba = None" unfolding ba_def by (rule special_digit_first) (simp add: isDigit_def)
  have fb: "floatBits env float64info a = Some (0, False)"
    using floatBits_out_of_range [of a env float64info] a far by (simp add: zeroBits_def)
  have ex: "batof64exact env 1000000000000000000 x False = None" for x
    by (simp add: batof64exact_def float64info_def drop_bit_eq_div)
  show ?thesis unfolding ba_def [symmetric]
    by (simp add: Batof64_def sp rf a(1) fb ex split: option.split)
qed

lemma Batof32_long_integer:
  assumes "800 \<le> j" and se: "scan_exponent r = Some ([], e)" and r: "r \<noteq> []" "\<not> isMantissaByte (hd r)"
    and far: "800 + e < - 330"
  shows "Batof32 env opt (CHR ''1'' # replicate j (CHR ''0'') @ r) =
           (if opt
            then (case extFloat_tier env 1000000000000000000 (1 + int j + e - 19) False False float32info of
                    None \<Rightarrow> Some (0, None)
                  | Some (bits, ovf) \<Rightarrow>
                      Some (ucast bits, if ovf then Some (rangeError fnParseFloat (CHR ''1'' # replicate j (CHR ''0'') @ r))
                                  else None))
            else Some (0, None))"
proof -
  define ba where "ba = CHR ''1'' # replicate j (CHR ''0'') @ r"
  from long_integer_scan [OF assms(1-4)] obtain a where
    a: "set_decimal decimal_zero ba = Some a" "nd a = 800" "dp a = 800 + e" "neg a = False"
    and rf: "readFloat ba = Some (1000000000000000000, 1 + int j + e - 19, False, False)"
    unfolding ba_def by blast
  have sp: "special ba = None" unfolding ba_def by (rule special_digit_first) (simp add: isDigit_def)
  have fb: "floatBits env float32info a = Some (0, False)"
    using floatBits_out_of_range [of a env float32info] a far by (simp add: zeroBits_def)
  have ex: "batof32exact env 1000000000000000000 x False = None" for x
    by (simp add: batof32exact_def float32info_def drop_bit_eq_div)
  show ?thesis unfolding ba_def [symmetric]
    by (simp add: Batof32_def sp rf a(1) fb ex split: option.split)
qed

lemma long_integer_specGrammar:
  assumes "exponentGrammar r" "r \<noteq> []"
  shows "specGrammar (CHR ''1'' # replicate j (CHR ''0'') @ r)"
proof -
  from assms obtain c r1 where r: "r = c # r1" "c = CHR ''e'' \<or> c = CHR ''E''"
    by (cases r) (auto simp: exponentGrammar_def)
  have dz: "dropWhile isDigit (replicate j (CHR ''0'') @ r) = r"
    using r by (induction j) (auto simp: isDigit_def)
  have e: "c \<noteq> CHR ''.''" using r(2) by auto
  have d1: "isDigit (CHR ''1'')" by (simp add: isDigit_def)
  have ss: "stripSign (CHR ''1'' # replicate j (CHR ''0'') @ r) = CHR ''1'' # replicate j (CHR ''0'') @ r"
    by (simp add: stripSign_def)
  have tw: "takeWhile isDigit (CHR ''1'' # replicate j (CHR ''0'') @ r) \<noteq> []"
    by (simp add: d1)
  have dw: "dropWhile isDigit (CHR ''1'' # replicate j (CHR ''0'') @ r) = c # r1"
    using dz by (simp add: d1 r(1))
  have g: "exponentGrammar (c # r1)" using assms(1) by (simp add: r(1))
  show ?thesis
    unfolding specGrammar_def Let_def ss dw using tw g e by simp
qed

lemma float64_of_float32_zero: "float64_of_float32 0 = 0"
  by (simp add: float64_of_float32_def)

text \<open>
  C1.  \<open>Batof64\<close> does not return the nearest binary64 value for every well-formed
  numeral with a representable value.  The input \<open>1\<close>, 1200 zeros, \<open>e-1200\<close> is well
  formed and denotes exactly 1, whose binary64 pattern is \<open>0x3FF0000000000000\<close>.  The
  scanner \<open>readFloat\<close> counts all 1201 digits and returns the mantissa \<open>10^18\<close> with
  decimal exponent -18, which is 1.  The scanner \<open>set\<close> stores 800 digits and, there being
  no decimal point in the input, takes the decimal point from the number of digits
  \<^emph>\<open>stored\<close>: it ends with the decimal point at \<open>800 - 1200 = -400\<close>, that is with the
  value \<open>10^(-401)\<close>, and \<open>floatBits\<close> short-circuits to zero.  So with \<open>optimize\<close> off
  \<open>Batof64\<close> and \<open>ParseFloat\<close> return \<open>+0\<close> with no error, whatever the decimal engine
  is; with \<open>optimize\<close> on the exact tier declines (the mantissa does not fit 53 bits) and
  the result is the extended tier's if it accepts the scanned pair, and the same \<open>+0\<close> if
  it declines.
\<close>

theorem long_integer_part_parses_as_zero:
  "specGrammar (CHR ''1'' # replicate 1200 (CHR ''0'') @ ''e-1200'')
   \<and> readFloat (CHR ''1'' # replicate 1200 (CHR ''0'') @ ''e-1200'')
       = Some (1000000000000000000, - 18, False, False)
   \<and> (\<exists>a. set_decimal decimal_zero (CHR ''1'' # replicate 1200 (CHR ''0'') @ ''e-1200'') = Some a
          \<and> nd a = 800 \<and> dp a = - 400)
   \<and> Batof64 env False (CHR ''1'' # replicate 1200 (CHR ''0'') @ ''e-1200'') = Some (0, None)
   \<and> ParseFloat env False (CHR ''1'' # replicate 1200 (CHR ''0'') @ ''e-1200'') 64 = Some (0, None)
   \<and> Batof64 env True (CHR ''1'' # replicate 1200 (CHR ''0'') @ ''e-1200'') =
       (case extFloat_tier env 1000000000000000000 (- 18) False False float64info of
          None \<Rightarrow> Some (0, None)
        | Some (bits, ovf) \<Rightarrow>
            Some (bits, if ovf then Some (rangeError fnParseFloat (CHR ''1'' # replicate 1200 (CHR ''0'') @ ''e-1200''))
                        else None))"
proof -
  have r: "''e-1200'' \<noteq> []" "\<not> isMantissaByte (hd ''e-1200'')"
    by (simp_all add: isMantissaByte_def isDigit_def)
  have g: "exponentGrammar ''e-1200''"
    by (simp add: exponentGrammar_def stripSign_def isDigit_def)
  have j: "800 \<le> (1200::nat)" by simp
  have far: "800 + - 1200 < (- 330 :: int)" by simp
  have e: "1 + int 1200 + - 1200 - 19 = - 18" "800 + - 1200 = (- 400 :: int)" by simp_all
  have t: "(if True then x else y) = x" "(if False then x else y) = y" for x y :: "(float64 \<times> NumError option) option"
    by simp_all
  note G = long_integer_specGrammar [OF g r(1), of 1200]
  note A = Batof64_long_integer [OF j exponent_scans(1) r far, of env False, unfolded t]
  note A' = Batof64_long_integer [OF j exponent_scans(1) r far, of env True, unfolded e t]
  note B = long_integer_scan(2) [OF j exponent_scans(1) r, unfolded e]
  from long_integer_scan(1) [OF j exponent_scans(1) r, unfolded e]
  have C: "\<exists>a. set_decimal decimal_zero (CHR ''1'' # replicate 1200 (CHR ''0'') @ ''e-1200'') = Some a
          \<and> nd a = 800 \<and> dp a = - 400"
    by blast
  have P: "ParseFloat env False (CHR ''1'' # replicate 1200 (CHR ''0'') @ ''e-1200'') 64 = Some (0, None)"
    unfolding ParseFloat_def using A by simp
  from G B C A P A' show ?thesis by (intro conjI)
qed

text \<open>
  C3.  A well-formed input whose magnitude is above the largest finite value does not
  always give an infinity with a Range error.  The input \<open>1\<close>, 2000 zeros, \<open>e-1600\<close> is
  well formed and denotes \<open>10^400\<close>, for which the comment of \<open>ParseFloat\<close> promises an
  infinity with \<open>ErrRange\<close> (as for \<open>1e400\<close>).  \<open>readFloat\<close> scans it as \<open>10^18\<close> with decimal
  exponent 382, which is \<open>10^400\<close>; \<open>set\<close> takes the decimal point from the 800 digits it
  stored and ends with the decimal point at \<open>800 - 1600 = -800\<close>, and \<open>floatBits\<close>
  short-circuits to zero.  With \<open>optimize\<close> off \<open>Batof64\<close>, \<open>Batof32\<close> and \<open>ParseFloat\<close> at
  both sizes return \<open>+0\<close> with no error, whatever the decimal engine is; with \<open>optimize\<close> on
  the exact tier declines and the result is the extended tier's if it accepts the scanned
  pair, and the same \<open>+0\<close> with no error if it declines.
\<close>

theorem overflowing_input_parses_as_zero:
  "specGrammar (CHR ''1'' # replicate 2000 (CHR ''0'') @ ''e-1600'')
   \<and> readFloat (CHR ''1'' # replicate 2000 (CHR ''0'') @ ''e-1600'')
       = Some (1000000000000000000, 382, False, False)
   \<and> (\<exists>a. set_decimal decimal_zero (CHR ''1'' # replicate 2000 (CHR ''0'') @ ''e-1600'') = Some a
          \<and> nd a = 800 \<and> dp a = - 800)
   \<and> Batof64 env False (CHR ''1'' # replicate 2000 (CHR ''0'') @ ''e-1600'') = Some (0, None)
   \<and> Batof32 env False (CHR ''1'' # replicate 2000 (CHR ''0'') @ ''e-1600'') = Some (0, None)
   \<and> ParseFloat env False (CHR ''1'' # replicate 2000 (CHR ''0'') @ ''e-1600'') 64 = Some (0, None)
   \<and> ParseFloat env False (CHR ''1'' # replicate 2000 (CHR ''0'') @ ''e-1600'') 32 = Some (0, None)
   \<and> Batof64 env True (CHR ''1'' # replicate 2000 (CHR ''0'') @ ''e-1600'') =
       (case extFloat_tier env 1000000000000000000 382 False False float64info of
          None \<Rightarrow> Some (0, None)
        | Some (bits, ovf) \<Rightarrow>
            Some (bits, if ovf then Some (rangeError fnParseFloat (CHR ''1'' # replicate 2000 (CHR ''0'') @ ''e-1600''))
                        else None))
   \<and> Batof32 env True (CHR ''1'' # replicate 2000 (CHR ''0'') @ ''e-1600'') =
       (case extFloat_tier env 1000000000000000000 382 False False float32info of
          None \<Rightarrow> Some (0, None)
        | Some (bits, ovf) \<Rightarrow>
            Some (ucast bits, if ovf then Some (rangeError fnParseFloat (CHR ''1'' # replicate 2000 (CHR ''0'') @ ''e-1600''))
                              else None))"
proof -
  have r: "''e-1600'' \<noteq> []" "\<not> isMantissaByte (hd ''e-1600'')"
    by (simp_all add: isMantissaByte_def isDigit_def)
  have g: "exponentGrammar ''e-1600''"
    by (simp add: exponentGrammar_def stripSign_def isDigit_def)
  have j: "800 \<le> (2000::nat)" by simp
  have far: "800 + - 1600 < (- 330 :: int)" by simp
  have e: "1 + int 2000 + - 1600 - 19 = 382" "800 + - 1600 = (- 800 :: int)" by simp_all
  have t: "(if True then x else y) = x" "(if False then x else y) = y" for x y :: "(float64 \<times> NumError option) option"
    by simp_all
  have t32: "(if True then x else y) = x" "(if False then x else y) = y" for x y :: "(float32 \<times> NumError option) option"
    by simp_all
  note G = long_integer_specGrammar [OF g r(1), of 2000]
  note A = Batof64_long_integer [OF j exponent_scans(2) r far, of env False, unfolded t]
  note B = Batof32_long_integer [OF j exponent_scans(2) r far, of env False, unfolded t32]
  note C = Batof64_long_integer [OF j exponent_scans(2) r far, of env True, unfolded e t]
  note C' = Batof32_long_integer [OF j exponent_scans(2) r far, of env True, unfolded e t32]
  note D = long_integer_scan(2) [OF j exponent_scans(2) r, unfolded e]
  from long_integer_scan(1) [OF j exponent_scans(2) r, unfolded e]
  have S: "\<exists>a. set_decimal decimal_zero (CHR ''1'' # replicate 2000 (CHR ''0'') @ ''e-1600'') = Some a
          \<and> nd a = 800 \<and> dp a = - 800"
    by blast
  have P: "ParseFloat env False (CHR ''1'' # replicate 2000 (CHR ''0'') @ ''e-1600'') 64 = Some (0, None)"
    unfolding ParseFloat_def using A by simp
  have P32: "ParseFloat env False (CHR ''1'' # replicate 2000 (CHR ''0'') @ ''e-1600'') 32 = Some (0, None)"
    unfolding ParseFloat_def using B by (simp add: float64_of_float32_zero)
  from G D S A B P P32 C C' show ?thesis by (intro conjI)
qed

end
